theory Spec2Isabelle
  imports Complex_Main
begin

section \<open>JavaScript numbers\<close>

text \<open>
  The program is \<^verbatim>\<open>src/assets/js/grass-wind.js\<close>. All of its arithmetic is on
  JavaScript Numbers, the binary64 values of IEEE 754. A Number is modelled as a finite
  value \<open>Fin x\<close>, where \<open>x\<close> is the real number the double stands for, one of the two
  infinities, or NaN. The result of an operation on finite values is the exact real
  result rounded to the nearest double, ties to the even mantissa, and an infinity when
  the rounded result is beyond the largest double; the special values follow IEEE 754
  (division by zero, \<open>\<infinity> - \<infinity>\<close>, \<open>0 * \<infinity>\<close>, comparisons with NaN). The two zeros of
  binary64 are identified, as \<^verbatim>\<open>===\<close> identifies them: \<open>Fin 0\<close> stands for both, and a
  quotient by zero is given the sign it has for \<open>+0\<close>.
\<close>

subsection \<open>Rounding to binary64\<close>

text \<open>The nearest integer, a tie going to the even one.\<close>

definition round_even :: "real \<Rightarrow> int" where
  "round_even x =
     (if x - of_int \<lfloor>x\<rfloor> < 1 / 2 then \<lfloor>x\<rfloor>
      else if 1 / 2 < x - of_int \<lfloor>x\<rfloor> then \<lfloor>x\<rfloor> + 1
      else if even \<lfloor>x\<rfloor> then \<lfloor>x\<rfloor> else \<lfloor>x\<rfloor> + 1)"

text \<open>
  The exponent of the binade of \<open>x\<close>: \<open>e\<close> with \<open>2\<^sup>e \<le> |x| < 2\<^sup>e\<^sup>+\<^sup>1\<close>, and \<open>-1022\<close> for
  the subnormal range. The doubles of a binade are the multiples of its unit in the
  last place \<open>2\<^sup>e\<^sup>-\<^sup>5\<^sup>2\<close>, and \<open>nearest x\<close> is the one nearest to \<open>x\<close>.
\<close>

definition binade :: "real \<Rightarrow> int" where
  "binade x = (if \<bar>x\<bar> < 2 powi (- 1022) then - 1022 else \<lfloor>log 2 \<bar>x\<bar>\<rfloor>)"

definition ulp :: "real \<Rightarrow> real" where
  "ulp x = 2 powi (binade x - 52)"

definition nearest :: "real \<Rightarrow> real" where
  "nearest x = of_int (round_even (x / ulp x)) * ulp x"

text \<open>A real number that is a finite double.\<close>

definition is_double :: "real \<Rightarrow> bool" where
  "is_double x = (nearest x = x \<and> \<bar>x\<bar> < 2 ^ 1024)"

subsection \<open>Numbers and their arithmetic\<close>

datatype number = Fin real | PInf | NInf | NaN

text \<open>The Number for a real result: the nearest double, or an infinity on overflow.\<close>

definition fl :: "real \<Rightarrow> number" where
  "fl x = (if 2 ^ 1024 \<le> nearest x then PInf
           else if nearest x \<le> - (2 ^ 1024) then NInf
           else Fin (nearest x))"

text \<open>A decimal literal of the source: the double nearest to it.\<close>

definition lit :: "real \<Rightarrow> number" where
  "lit x = fl x"

text \<open>A value of the model that is a Number: the finite ones hold a double.\<close>

fun is_number :: "number \<Rightarrow> bool" where
  "is_number (Fin a) = is_double a"
| "is_number PInf = True"
| "is_number NInf = True"
| "is_number NaN = True"

fun is_fin :: "number \<Rightarrow> bool" where
  "is_fin (Fin a) = True"
| "is_fin PInf = False"
| "is_fin NInf = False"
| "is_fin NaN = False"

fun sign_of :: "number \<Rightarrow> real" where
  "sign_of (Fin a) = sgn a"
| "sign_of PInf = 1"
| "sign_of NInf = - 1"
| "sign_of NaN = 0"

definition signed_inf :: "real \<Rightarrow> number" where
  "signed_inf s = (if 0 < s then PInf else if s < 0 then NInf else NaN)"

instantiation number :: "{zero, one, plus, uminus, minus, times, inverse, ord}"
begin

definition zero_number :: number where
  "zero_number = Fin 0"

definition one_number :: number where
  "one_number = Fin 1"

fun plus_number :: "number \<Rightarrow> number \<Rightarrow> number" where
  "plus_number (Fin a) (Fin b) = fl (a + b)"
| "plus_number NaN b = NaN"
| "plus_number a NaN = NaN"
| "plus_number PInf NInf = NaN"
| "plus_number NInf PInf = NaN"
| "plus_number PInf b = PInf"
| "plus_number a PInf = PInf"
| "plus_number NInf b = NInf"
| "plus_number a NInf = NInf"

fun uminus_number :: "number \<Rightarrow> number" where
  "uminus_number (Fin a) = Fin (- a)"
| "uminus_number PInf = NInf"
| "uminus_number NInf = PInf"
| "uminus_number NaN = NaN"

definition minus_number :: "number \<Rightarrow> number \<Rightarrow> number" where
  "minus_number a b = a + (- b)"

fun times_number :: "number \<Rightarrow> number \<Rightarrow> number" where
  "times_number (Fin a) (Fin b) = fl (a * b)"
| "times_number NaN b = NaN"
| "times_number a NaN = NaN"
| "times_number a b = signed_inf (sign_of a * sign_of b)"

fun divide_number :: "number \<Rightarrow> number \<Rightarrow> number" where
  "divide_number (Fin a) (Fin b) = (if b = 0 then signed_inf (sgn a) else fl (a / b))"
| "divide_number NaN b = NaN"
| "divide_number a NaN = NaN"
| "divide_number (Fin a) b = Fin 0"
| "divide_number a (Fin b) = signed_inf (sign_of a * (if b < 0 then - 1 else 1))"
| "divide_number a b = NaN"

definition inverse_number :: "number \<Rightarrow> number" where
  "inverse_number a = divide (Fin 1) a"

fun less_number :: "number \<Rightarrow> number \<Rightarrow> bool" where
  "less_number (Fin a) (Fin b) = (a < b)"
| "less_number NaN b = False"
| "less_number a NaN = False"
| "less_number a NInf = False"
| "less_number PInf b = False"
| "less_number a b = True"

fun less_eq_number :: "number \<Rightarrow> number \<Rightarrow> bool" where
  "less_eq_number (Fin a) (Fin b) = (a \<le> b)"
| "less_eq_number NaN b = False"
| "less_eq_number a NaN = False"
| "less_eq_number NInf b = True"
| "less_eq_number a PInf = True"
| "less_eq_number a b = False"

instance ..

end

subsection \<open>The Math object\<close>

text \<open>
  \<^verbatim>\<open>Math.sqrt\<close> is correctly rounded. For \<^verbatim>\<open>Math.sin\<close>, \<^verbatim>\<open>Math.cos\<close> and
  \<^verbatim>\<open>Math.atan2\<close> the language asks an approximation of the engine's choice; they are
  taken here as correctly rounded as well. \<^verbatim>\<open>Math.floor\<close> and \<^verbatim>\<open>Math.ceil\<close> are
  exact: the floor and the ceiling of a double are doubles.
\<close>

definition Math_PI :: number where
  "Math_PI = fl pi"

fun Math_sqrt :: "number \<Rightarrow> number" where
  "Math_sqrt (Fin a) = (if a < 0 then NaN else fl (sqrt a))"
| "Math_sqrt PInf = PInf"
| "Math_sqrt NInf = NaN"
| "Math_sqrt NaN = NaN"

fun Math_sin :: "number \<Rightarrow> number" where
  "Math_sin (Fin a) = fl (sin a)"
| "Math_sin a = NaN"

fun Math_cos :: "number \<Rightarrow> number" where
  "Math_cos (Fin a) = fl (cos a)"
| "Math_cos a = NaN"

fun Math_floor :: "number \<Rightarrow> number" where
  "Math_floor (Fin a) = Fin (of_int \<lfloor>a\<rfloor>)"
| "Math_floor a = a"

fun Math_ceil :: "number \<Rightarrow> number" where
  "Math_ceil (Fin a) = Fin (of_int \<lceil>a\<rceil>)"
| "Math_ceil a = a"

text \<open>\<^verbatim>\<open>Math.max\<close> and \<^verbatim>\<open>Math.min\<close> return NaN when either argument is NaN.\<close>

fun Math_max :: "number \<Rightarrow> number \<Rightarrow> number" where
  "Math_max NaN b = NaN"
| "Math_max a NaN = NaN"
| "Math_max a b = (if a < b then b else a)"

fun Math_min :: "number \<Rightarrow> number \<Rightarrow> number" where
  "Math_min NaN b = NaN"
| "Math_min a NaN = NaN"
| "Math_min a b = (if b < a then b else a)"

text \<open>
  \<^verbatim>\<open>Math.atan2(y, x)\<close> on finite arguments, the zero being \<open>+0\<close>, and its table
  of special values.
\<close>

definition atan2_fin :: "real \<Rightarrow> real \<Rightarrow> real" where
  "atan2_fin y x =
     (if 0 < x then arctan (y / x)
      else if x < 0 then (if 0 \<le> y then arctan (y / x) + pi else arctan (y / x) - pi)
      else if 0 < y then pi / 2
      else if y < 0 then - (pi / 2)
      else 0)"

fun Math_atan2 :: "number \<Rightarrow> number \<Rightarrow> number" where
  "Math_atan2 (Fin y) (Fin x) = fl (atan2_fin y x)"
| "Math_atan2 NaN x = NaN"
| "Math_atan2 y NaN = NaN"
| "Math_atan2 (Fin y) PInf = Fin 0"
| "Math_atan2 (Fin y) NInf = (if 0 \<le> y then fl pi else fl (- pi))"
| "Math_atan2 PInf (Fin x) = fl (pi / 2)"
| "Math_atan2 NInf (Fin x) = fl (- (pi / 2))"
| "Math_atan2 PInf PInf = fl (pi / 4)"
| "Math_atan2 PInf NInf = fl (3 * pi / 4)"
| "Math_atan2 NInf PInf = fl (- (pi / 4))"
| "Math_atan2 NInf NInf = fl (- (3 * pi / 4))"

section \<open>Utility functions\<close>

text \<open>\<^verbatim>\<open>noise2D(x, y, seed)\<close>: the fractional part of a scaled sine.\<close>

definition noise2D :: "number \<Rightarrow> number \<Rightarrow> number \<Rightarrow> number" where
  "noise2D x y seed =
     (let n = Math_sin (x * lit 12.9898 + y * lit 78.233 + seed) * lit 43758.5453
      in n - Math_floor n)"

text \<open>\<^verbatim>\<open>smoothNoise(x, y, scale, seed)\<close>: the four lattice corners, blended.\<close>

definition smoothNoise :: "number \<Rightarrow> number \<Rightarrow> number \<Rightarrow> number \<Rightarrow> number" where
  "smoothNoise x y scale seed =
     (let sx = x * scale;
          sy = y * scale;
          x0 = Math_floor sx;
          y0 = Math_floor sy;
          x1 = x0 + Fin 1;
          y1 = y0 + Fin 1;
          fx = sx - x0;
          fy = sy - y0;
          u = fx * fx * (Fin 3 - Fin 2 * fx);
          v = fy * fy * (Fin 3 - Fin 2 * fy);
          n00 = noise2D x0 y0 seed;
          n10 = noise2D x1 y0 seed;
          n01 = noise2D x0 y1 seed;
          n11 = noise2D x1 y1 seed;
          nx0 = n00 * (Fin 1 - u) + n10 * u;
          nx1 = n01 * (Fin 1 - u) + n11 * u
      in nx0 * (Fin 1 - v) + nx1 * v)"

text \<open>\<^verbatim>\<open>smoothstep(edge0, edge1, x)\<close>.\<close>

definition smoothstep :: "number \<Rightarrow> number \<Rightarrow> number \<Rightarrow> number" where
  "smoothstep edge0 edge1 x =
     (let t = Math_max (Fin 0) (Math_min (Fin 1) ((x - edge0) / (edge1 - edge0)))
      in t * t * (Fin 3 - Fin 2 * t))"

section \<open>Configuration\<close>

text \<open>
  The options object: \<^verbatim>\<open>DEFAULTS\<close> merged with the user's options. Every numeric
  tunable is a Number; \<^verbatim>\<open>bladeLength: { min, max }\<close> is flattened into two fields. A
  decimal literal of the source is the double nearest to it.
\<close>

record config =
  gridColumnsDesktop :: number
  gridColumnsMobile :: number
  mobileBreakpoint :: number
  bladesPerCell :: number
  bladeLength_min :: number
  bladeLength_max :: number
  bladeWidth :: number
  bladeAlpha :: number
  rootSize :: number
  rootAlpha :: number
  bladeColor :: string
  rootColor :: string
  stiffness :: number
  damping :: number
  maxBend :: number
  fieldScale :: number
  fieldStrength :: number
  fieldSpeed :: number
  gustFrequency :: number
  gustStrength :: number
  gustRadius :: number
  gustDuration :: number
  mouseStrength :: number
  mouseRadius :: number
  mouseSmoothing :: number
  reducedMotion :: bool
  reducedMotionFPS :: number

definition DEFAULTS :: config where
  "DEFAULTS = \<lparr>
     gridColumnsDesktop = Fin 30,
     gridColumnsMobile = Fin 10,
     mobileBreakpoint = Fin 768,
     bladesPerCell = Fin 1,
     bladeLength_min = Fin 8,
     bladeLength_max = Fin 20,
     bladeWidth = Fin 1.5,
     bladeAlpha = lit 0.4,
     rootSize = Fin 1.5,
     rootAlpha = lit 0.3,
     bladeColor = ''rgb(91, 111, 163)'',
     rootColor = ''rgb(91, 111, 163)'',
     stiffness = lit 0.015,
     damping = lit 0.85,
     maxBend = Math_PI * Fin 2,
     fieldScale = lit 0.003,
     fieldStrength = lit 0.15,
     fieldSpeed = Fin 1,
     gustFrequency = lit 0.2,
     gustStrength = lit 0.8,
     gustRadius = Fin 200,
     gustDuration = Fin 3000,
     mouseStrength = Fin 0.5,
     mouseRadius = Fin 150,
     mouseSmoothing = lit 0.15,
     reducedMotion = False,
     reducedMotionFPS = Fin 5 \<rparr>"

section \<open>The grass blade\<close>

text \<open>
  \<^verbatim>\<open>class GrassBlade\<close>. The fields \<^verbatim>\<open>length\<close> and \<^verbatim>\<open>config\<close> carry a
  suffix, since the names are taken. The constructor's call of \<^verbatim>\<open>Math.random()\<close>
  is the argument \<open>r\<close>.
\<close>

record GrassBlade =
  rootX :: number
  rootY :: number
  length_blade :: number
  config_blade :: config
  angle :: number
  velocity :: number

definition GrassBlade_new :: "number \<Rightarrow> number \<Rightarrow> number \<Rightarrow> config \<Rightarrow> real \<Rightarrow> GrassBlade" where
  "GrassBlade_new x y len cfg r = \<lparr>
     rootX = x,
     rootY = y,
     length_blade = len,
     config_blade = cfg,
     angle = (Fin r - Fin 0.5) * maxBend cfg * Fin 2,
     velocity = Fin 0 \<rparr>"

text \<open>
  \<^verbatim>\<open>update(windX, windY)\<close>, one definition for each of its four commented blocks:
  the torque of the wind, the damping, the angle, the clamp.
\<close>

definition apply_torque :: "number \<Rightarrow> number \<Rightarrow> GrassBlade \<Rightarrow> GrassBlade" where
  "apply_torque windX windY b =
     (let windMagnitude = Math_sqrt (windX * windX + windY * windY)
      in if windMagnitude > lit 0.001
         then (let windAngle = Math_atan2 windX (- windY);
                   angleDiff = windAngle - angle b;
                   torque = Math_sin angleDiff * windMagnitude * stiffness (config_blade b)
               in b\<lparr>velocity := velocity b + torque\<rparr>)
         else b)"

definition apply_damping :: "GrassBlade \<Rightarrow> GrassBlade" where
  "apply_damping b = b\<lparr>velocity := velocity b * damping (config_blade b)\<rparr>"

definition update_angle :: "GrassBlade \<Rightarrow> GrassBlade" where
  "update_angle b = b\<lparr>angle := angle b + velocity b\<rparr>"

definition clamp_to_max_bend :: "GrassBlade \<Rightarrow> GrassBlade" where
  "clamp_to_max_bend b =
     b\<lparr>angle := Math_max (- maxBend (config_blade b))
                     (Math_min (maxBend (config_blade b)) (angle b))\<rparr>"

definition GrassBlade_update :: "number \<Rightarrow> number \<Rightarrow> GrassBlade \<Rightarrow> GrassBlade" where
  "GrassBlade_update windX windY b =
     clamp_to_max_bend (update_angle (apply_damping (apply_torque windX windY b)))"

text \<open>The calls that \<^verbatim>\<open>draw(ctx)\<close> makes on the canvas context, in order.\<close>

datatype canvas_op =
    ClearRect number number number number
  | SetGlobalAlpha number
  | SetFillStyle string
  | SetStrokeStyle string
  | SetLineWidth number
  | SetLineCap string
  | BeginPath
  | Arc number number number number number
  | Fill
  | MoveTo number number
  | LineTo number number
  | Stroke

definition GrassBlade_draw :: "GrassBlade \<Rightarrow> canvas_op list" where
  "GrassBlade_draw b =
     (let tipX = rootX b + Math_sin (angle b) * length_blade b;
          tipY = rootY b - Math_cos (angle b) * length_blade b
      in [SetGlobalAlpha (rootAlpha (config_blade b)),
          SetFillStyle (rootColor (config_blade b)),
          BeginPath,
          Arc (rootX b) (rootY b) (rootSize (config_blade b)) (Fin 0) (Math_PI * Fin 2),
          Fill,
          SetGlobalAlpha (bladeAlpha (config_blade b)),
          SetStrokeStyle (bladeColor (config_blade b)),
          SetLineWidth (bladeWidth (config_blade b)),
          SetLineCap ''round'',
          BeginPath,
          MoveTo (rootX b) (rootY b),
          LineTo tipX tipY,
          Stroke])"

section \<open>The gust\<close>

text \<open>
  \<^verbatim>\<open>class Gust\<close>. Every reading of \<^verbatim>\<open>Date.now()\<close> is the argument \<open>now\<close>, and
  the constructor's \<^verbatim>\<open>Math.random()\<close> is \<open>r\<close>. A force \<^verbatim>\<open>{ x, y }\<close> is a pair.
\<close>

record Gust =
  x_gust :: number
  y_gust :: number
  config_gust :: config
  birthTime :: number
  duration :: number
  angle_gust :: number
  dirX :: number
  dirY :: number

definition Gust_new :: "number \<Rightarrow> number \<Rightarrow> config \<Rightarrow> number \<Rightarrow> real \<Rightarrow> Gust" where
  "Gust_new x y cfg now r =
     (let a = Fin r * Math_PI * Fin 2
      in \<lparr> x_gust = x,
           y_gust = y,
           config_gust = cfg,
           birthTime = now,
           duration = gustDuration cfg,
           angle_gust = a,
           dirX = Math_cos a,
           dirY = Math_sin a \<rparr>)"

definition isAlive :: "Gust \<Rightarrow> number \<Rightarrow> bool" where
  "isAlive g now = (now - birthTime g < duration g)"

definition getForce :: "Gust \<Rightarrow> number \<Rightarrow> number \<Rightarrow> number \<Rightarrow> number \<times> number" where
  "getForce g now x y =
     (let dx = x - x_gust g;
          dy = y - y_gust g;
          dist = Math_sqrt (dx * dx + dy * dy)
      in if dist > gustRadius (config_gust g) then (Fin 0, Fin 0)
         else
           (let distFalloff = Fin 1 - dist / gustRadius (config_gust g);
                age = now - birthTime g;
                t = age / duration g;
                timeEnvelope =
                  smoothstep (Fin 0) (lit 0.2) t * (Fin 1 - smoothstep (lit 0.7) (Fin 1) t);
                strength = gustStrength (config_gust g) * distFalloff * timeEnvelope
            in (dirX g * strength, dirY g * strength)))"

section \<open>The simulation\<close>

text \<open>
  \<^verbatim>\<open>class GrassWindBackground\<close>: the fields the simulation reads and writes. The
  canvas, the observers and the frame callback are outside the model.
\<close>

record GrassWindBackground =
  config :: config
  width :: number
  height :: number
  blades :: "GrassBlade list"
  gusts :: "Gust list"
  time :: number
  mouseX :: number
  mouseY :: number
  lastMouseX :: number
  lastMouseY :: number
  mouseVelX :: number
  mouseVelY :: number
  smoothMouseVelX :: number
  smoothMouseVelY :: number
  isMouseOver :: bool

text \<open>
  A counting loop \<^verbatim>\<open>for (let i = 0; i < bound; i++) body\<close> whose bound is a Number,
  from the value \<open>i\<close> of the counter on. The counter is a Number as well; a loop that
  never ends, as with an infinite bound, is the value \<open>None\<close>.
\<close>

partial_function (option) for_loop :: "number \<Rightarrow> (number \<Rightarrow> 's \<Rightarrow> 's option) \<Rightarrow> number \<Rightarrow> 's \<Rightarrow> 's option" where
  "for_loop bound body i s =
     (if i < bound then Option.bind (body i s) (for_loop bound body (i + Fin 1))
      else Some s)"

text \<open>
  \<^verbatim>\<open>Math.random()\<close>: the calls are numbered, and the call number \<open>k\<close> returns
  \<open>rnd k\<close>, a double in \<open>[0, 1)\<close>. A function that draws random numbers takes the number of the next call and
  returns the number after its last one.
\<close>

type_synonym random_source = "nat \<Rightarrow> real"

text \<open>
  The body of the innermost loop of \<^verbatim>\<open>setupBlades\<close>: one blade pushed, two random
  numbers drawn (the length, then the angle in the constructor).
\<close>

definition push_blade :: "config \<Rightarrow> random_source \<Rightarrow> number \<Rightarrow> number \<Rightarrow> number \<Rightarrow> GrassBlade list \<times> nat \<Rightarrow> GrassBlade list \<times> nat" where
  "push_blade cfg rnd cellSize row col st =
     (let x = col * cellSize + cellSize / Fin 2;
          y = row * cellSize + cellSize / Fin 2;
          len = bladeLength_min cfg
                + Fin (rnd (snd st)) * (bladeLength_max cfg - bladeLength_min cfg)
      in (fst st @ [GrassBlade_new x y len cfg (rnd (Suc (snd st)))], Suc (Suc (snd st))))"

definition setupBlades :: "random_source \<Rightarrow> nat \<Rightarrow> GrassWindBackground \<Rightarrow> (GrassWindBackground \<times> nat) option" where
  "setupBlades rnd k s =
     (let isMobile = width s \<le> mobileBreakpoint (config s);
          columns = (if isMobile then gridColumnsMobile (config s)
                     else gridColumnsDesktop (config s));
          cellSize = width s / columns;
          rows = Math_ceil (height s / cellSize)
      in map_option (\<lambda>st. (s\<lparr>blades := fst st\<rparr>, snd st))
           (for_loop rows
              (\<lambda>row. for_loop columns
                 (\<lambda>col. for_loop (bladesPerCell (config s))
                    (\<lambda>b st. Some (push_blade (config s) rnd cellSize row col st)) (Fin 0)) (Fin 0))
              (Fin 0) ([], k)))"

text \<open>The three pointer handlers; the event's position is relative to the container.\<close>

definition mouseMoveHandler :: "number \<Rightarrow> number \<Rightarrow> GrassWindBackground \<Rightarrow> GrassWindBackground" where
  "mouseMoveHandler px py s =
     s\<lparr>lastMouseX := mouseX s, lastMouseY := mouseY s, mouseX := px, mouseY := py\<rparr>"

definition mouseEnterHandler :: "GrassWindBackground \<Rightarrow> GrassWindBackground" where
  "mouseEnterHandler s = s\<lparr>isMouseOver := True\<rparr>"

definition mouseLeaveHandler :: "GrassWindBackground \<Rightarrow> GrassWindBackground" where
  "mouseLeaveHandler s =
     s\<lparr>isMouseOver := False, smoothMouseVelX := Fin 0, smoothMouseVelY := Fin 0\<rparr>"

text \<open>\<^verbatim>\<open>getWindForce(x, y)\<close>: the noise field, the loop over the gusts, the pointer.\<close>

definition add_gust :: "number \<Rightarrow> number \<Rightarrow> number \<Rightarrow> Gust \<Rightarrow> number \<times> number \<Rightarrow> number \<times> number" where
  "add_gust now x y gust wind =
     (let gustForce = getForce gust now x y
      in (fst wind + fst gustForce, snd wind + snd gustForce))"

definition getWindForce :: "GrassWindBackground \<Rightarrow> number \<Rightarrow> number \<Rightarrow> number \<Rightarrow> number \<times> number" where
  "getWindForce s now x y =
     (let noiseValue = smoothNoise x y (fieldScale (config s)) (time s);
          noiseAngle = noiseValue * Math_PI * Fin 2;
          wind0 = (Math_cos noiseAngle * fieldStrength (config s),
                   Math_sin noiseAngle * fieldStrength (config s));
          wind1 = fold (add_gust now x y) (gusts s) wind0
      in if isMouseOver s
         then (let dx = x - mouseX s;
                   dy = y - mouseY s;
                   dist = Math_sqrt (dx * dx + dy * dy)
               in if dist < mouseRadius (config s) \<and> dist > Fin 0
                  then (let distFalloff = Fin 1 - dist / mouseRadius (config s);
                            mouseForce = distFalloff * mouseStrength (config s)
                        in (fst wind1 + smoothMouseVelX s * mouseForce,
                            snd wind1 + smoothMouseVelY s * mouseForce))
                  else wind1)
         else wind1)"

text \<open>
  \<^verbatim>\<open>update(deltaTime)\<close>, in its five steps. The clock is read once for a frame:
  every \<^verbatim>\<open>Date.now()\<close> of the frame is the argument \<open>now\<close>. The position of a new
  gust: where the \<^verbatim>\<open>switch\<close> matches no case the coordinates stay
  \<^verbatim>\<open>undefined\<close>, which is NaN in the arithmetic they enter.
\<close>

definition update_mouse :: "GrassWindBackground \<Rightarrow> GrassWindBackground" where
  "update_mouse s =
     (if isMouseOver s
      then (let s1 = s\<lparr>mouseVelX := mouseX s - lastMouseX s,
                       mouseVelY := mouseY s - lastMouseY s\<rparr>
            in s1\<lparr>smoothMouseVelX := smoothMouseVelX s1
                      + (mouseVelX s1 - smoothMouseVelX s1) * mouseSmoothing (config s1),
                    smoothMouseVelY := smoothMouseVelY s1
                      + (mouseVelY s1 - smoothMouseVelY s1) * mouseSmoothing (config s1)\<rparr>)
      else s)"

definition spawn_position :: "random_source \<Rightarrow> nat \<Rightarrow> GrassWindBackground \<Rightarrow> (number \<times> number) \<times> nat" where
  "spawn_position rnd k s =
     (let spawnFromEdge = Fin (rnd k) < lit 0.7
      in if spawnFromEdge
         then (let edge = Math_floor (Fin (rnd (k + 1)) * Fin 4)
               in if edge = Fin 0
                  then ((Fin (rnd (k + 2)) * width s,
                         - gustRadius (config s) * Fin 0.5), k + 3)
                  else if edge = Fin 1
                  then ((width s + gustRadius (config s) * Fin 0.5,
                         Fin (rnd (k + 2)) * height s), k + 3)
                  else if edge = Fin 2
                  then ((Fin (rnd (k + 2)) * width s,
                         height s + gustRadius (config s) * Fin 0.5), k + 3)
                  else if edge = Fin 3
                  then ((- gustRadius (config s) * Fin 0.5,
                         Fin (rnd (k + 2)) * height s), k + 3)
                  else ((NaN, NaN), k + 2))
         else ((Fin (rnd (k + 1)) * width s, Fin (rnd (k + 2)) * height s), k + 3))"

definition spawn_gust :: "random_source \<Rightarrow> nat \<Rightarrow> number \<Rightarrow> GrassWindBackground \<Rightarrow> GrassWindBackground \<times> nat" where
  "spawn_gust rnd k now s =
     (if Fin (rnd k) < gustFrequency (config s)
      then (let pos = spawn_position rnd (k + 1) s;
                g = Gust_new (fst (fst pos)) (snd (fst pos)) (config s) now (rnd (snd pos))
            in (s\<lparr>gusts := gusts s @ [g]\<rparr>, snd pos + 1))
      else (s, k + 1))"

definition update_blades :: "number \<Rightarrow> GrassWindBackground \<Rightarrow> GrassWindBackground" where
  "update_blades now s =
     s\<lparr>blades := map (\<lambda>blade.
          (let wind = getWindForce s now (rootX blade) (rootY blade)
           in GrassBlade_update (fst wind) (snd wind) blade)) (blades s)\<rparr>"

definition update :: "random_source \<Rightarrow> nat \<Rightarrow> number \<Rightarrow> number \<Rightarrow> GrassWindBackground \<Rightarrow> GrassWindBackground \<times> nat" where
  "update rnd k now deltaTime s =
     (let s1 = s\<lparr>time := time s + fieldSpeed (config s) * deltaTime\<rparr>;
          s2 = update_mouse s1;
          sp = spawn_gust rnd k now s2;
          s3 = fst sp;
          s4 = s3\<lparr>gusts := filter (\<lambda>gust. isAlive gust now) (gusts s3)\<rparr>
      in (update_blades now s4, snd sp))"

text \<open>\<^verbatim>\<open>render()\<close>: the calls on the canvas context, in order.\<close>

definition render :: "GrassWindBackground \<Rightarrow> canvas_op list" where
  "render s =
     [ClearRect (Fin 0) (Fin 0) (width s) (height s)]
     @ concat (map GrassBlade_draw (blades s))
     @ [SetGlobalAlpha (Fin 1)]"

section \<open>Notions of the specification\<close>

text \<open>
  The definitions of this section are not code of the program. They are the notions
  of the specification against which the program is compared, the invariants of the
  proofs, and the states on which the theorems are tried.
\<close>

subsection \<open>The blade\<close>

text \<open>The angle lies in \<open>[-maxBend, +maxBend]\<close>.\<close>

definition in_bend :: "GrassBlade \<Rightarrow> bool" where
  "in_bend b = (- maxBend (config_blade b) \<le> angle b \<and> angle b \<le> maxBend (config_blade b))"

text \<open>A sequence of \<^verbatim>\<open>update\<close> calls, one for each wind vector of the list.\<close>

definition updates :: "(number \<times> number) list \<Rightarrow> GrassBlade \<Rightarrow> GrassBlade" where
  "updates ws b = fold (\<lambda>w. GrassBlade_update (fst w) (snd w)) ws b"

text \<open>Clamping a value to the interval \<open>[lo, hi]\<close>.\<close>

definition clamp_to_interval :: "number \<Rightarrow> number \<Rightarrow> number \<Rightarrow> number" where
  "clamp_to_interval lo hi a = (if a < lo then lo else if hi < a then hi else a)"

text \<open>
  The update step in the words of the specification: the magnitude \<open>m\<close>, the torque
  when \<open>m\<close> exceeds \<open>eps\<close>, the damping of the velocity, the new angle, the clamp.
\<close>

definition update_spec :: "number \<Rightarrow> number \<Rightarrow> number \<Rightarrow> GrassBlade \<Rightarrow> GrassBlade" where
  "update_spec eps wx wy b =
     (let m = Math_sqrt (wx * wx + wy * wy);
          v1 = (if m > eps
                then velocity b
                     + Math_sin (Math_atan2 wx (- wy) - angle b) * m * stiffness (config_blade b)
                else velocity b);
          v2 = v1 * damping (config_blade b);
          a1 = angle b + v2
      in b\<lparr>angle := clamp_to_interval (- maxBend (config_blade b)) (maxBend (config_blade b)) a1,
            velocity := v2\<rparr>)"

subsection \<open>The gust\<close>

text \<open>A Number in \<open>[0, 1]\<close>.\<close>

fun unit_number :: "number \<Rightarrow> bool" where
  "unit_number (Fin a) = (is_double a \<and> 0 \<le> a \<and> a \<le> 1)"
| "unit_number PInf = False"
| "unit_number NInf = False"
| "unit_number NaN = False"

text \<open>The distance of a query point from a gust, as the program computes it.\<close>

definition gust_dist :: "Gust \<Rightarrow> number \<Rightarrow> number \<Rightarrow> number" where
  "gust_dist g x y =
     Math_sqrt ((x - x_gust g) * (x - x_gust g) + (y - y_gust g) * (y - y_gust g))"

text \<open>
  The time envelope of a gust over the fraction \<open>t\<close> of its life, in the words of the
  specification: the rise via smoothstep over the first 20%, full strength in between,
  the complementary fall over the last 30%; nothing before birth and after expiry.
\<close>

definition envelope_spec :: "number \<Rightarrow> number" where
  "envelope_spec t =
     (if t \<le> Fin 0 then Fin 0
      else if t < lit 0.2 then smoothstep (Fin 0) (lit 0.2) t
      else if t \<le> lit 0.7 then Fin 1
      else if t < Fin 1 then Fin 1 - smoothstep (lit 0.7) (Fin 1) t
      else Fin 0)"

text \<open>
  The force of a gust in the words of the specification: zero beyond the radius, and
  within it the direction scaled by the strength, the linear falloff and the envelope.
\<close>

definition force_spec :: "Gust \<Rightarrow> number \<Rightarrow> number \<Rightarrow> number \<Rightarrow> number \<times> number" where
  "force_spec g now x y =
     (if gust_dist g x y > gustRadius (config_gust g) then (Fin 0, Fin 0)
      else (dirX g * (gustStrength (config_gust g)
                        * (Fin 1 - gust_dist g x y / gustRadius (config_gust g))
                        * envelope_spec ((now - birthTime g) / duration g)),
            dirY g * (gustStrength (config_gust g)
                        * (Fin 1 - gust_dist g x y / gustRadius (config_gust g))
                        * envelope_spec ((now - birthTime g) / duration g))))"

subsection \<open>The wind field\<close>

text \<open>The sum of two vectors.\<close>

definition vec_add :: "number \<times> number \<Rightarrow> number \<times> number \<Rightarrow> number \<times> number" where
  "vec_add a b = (fst a + fst b, snd a + snd b)"

text \<open>The ambient vector: the noise value as an angle, scaled by the field strength.\<close>

definition ambient :: "GrassWindBackground \<Rightarrow> number \<Rightarrow> number \<Rightarrow> number \<times> number" where
  "ambient s x y =
     (Math_cos (smoothNoise x y (fieldScale (config s)) (time s) * Math_PI * Fin 2)
        * fieldStrength (config s),
      Math_sin (smoothNoise x y (fieldScale (config s)) (time s) * Math_PI * Fin 2)
        * fieldStrength (config s))"

text \<open>
  The distance of the query point from the pointer, and the pointer term: the smoothed
  pointer velocity scaled by \<open>(1 - dist / mouseRadius) * mouseStrength\<close>.
\<close>

definition pointer_dist :: "GrassWindBackground \<Rightarrow> number \<Rightarrow> number \<Rightarrow> number" where
  "pointer_dist s x y =
     Math_sqrt ((x - mouseX s) * (x - mouseX s) + (y - mouseY s) * (y - mouseY s))"

definition pointer_force :: "GrassWindBackground \<Rightarrow> number \<Rightarrow> number \<Rightarrow> number \<times> number" where
  "pointer_force s x y =
     (smoothMouseVelX s
        * ((Fin 1 - pointer_dist s x y / mouseRadius (config s)) * mouseStrength (config s)),
      smoothMouseVelY s
        * ((Fin 1 - pointer_dist s x y / mouseRadius (config s)) * mouseStrength (config s)))"

text \<open>
  The ambient vector and the forces of the gusts, summed from the left: the ambient
  vector first, then the gusts in the order of the list. A sum of doubles depends on
  the order of its terms, and this is the order of the program.
\<close>

definition gust_sum :: "GrassWindBackground \<Rightarrow> number \<Rightarrow> number \<Rightarrow> number \<Rightarrow> number \<times> number" where
  "gust_sum s now x y = foldl vec_add (ambient s x y) (map (\<lambda>g. getForce g now x y) (gusts s))"

text \<open>
  The composition as the program has it: the pointer term when the pointer is over
  the container and the distance is positive and below \<^verbatim>\<open>mouseRadius\<close>.
\<close>

definition wind_spec :: "GrassWindBackground \<Rightarrow> number \<Rightarrow> number \<Rightarrow> number \<Rightarrow> number \<times> number" where
  "wind_spec s now x y =
     (if isMouseOver s \<and> pointer_dist s x y < mouseRadius (config s)
         \<and> Fin 0 < pointer_dist s x y
      then vec_add (gust_sum s now x y) (pointer_force s x y)
      else gust_sum s now x y)"

text \<open>
  The composition in the words of the specification: the pointer term whenever the
  pointer is over the container and the distance is below \<^verbatim>\<open>mouseRadius\<close>.
\<close>

definition wind_claimed :: "GrassWindBackground \<Rightarrow> number \<Rightarrow> number \<Rightarrow> number \<Rightarrow> number \<times> number" where
  "wind_claimed s now x y =
     (if isMouseOver s \<and> pointer_dist s x y < mouseRadius (config s)
      then vec_add (gust_sum s now x y) (pointer_force s x y)
      else gust_sum s now x y)"

text \<open>
  A gust with finite position, birth time and direction, a positive finite duration
  and radius, and a strength that is a finite double.
\<close>

definition regular_gust :: "Gust \<Rightarrow> bool" where
  "regular_gust g =
     (is_fin (x_gust g) \<and> is_fin (y_gust g) \<and> is_fin (birthTime g)
      \<and> is_fin (dirX g) \<and> is_fin (dirY g)
      \<and> is_fin (duration g) \<and> Fin 0 < duration g
      \<and> is_fin (gustRadius (config_gust g)) \<and> Fin 0 < gustRadius (config_gust g)
      \<and> is_fin (gustStrength (config_gust g)) \<and> is_number (gustStrength (config_gust g)))"

text \<open>
  A simulation under the defaults with the pointer over the container at the origin,
  a smoothed pointer velocity of \<open>(1, 0)\<close>, and one gust born at the origin at time 0.
\<close>

definition pointer_sim :: GrassWindBackground where
  "pointer_sim = \<lparr>
     config = DEFAULTS,
     width = Fin 900,
     height = Fin 300,
     blades = [],
     gusts = [Gust_new (Fin 0) (Fin 0) DEFAULTS (Fin 0) 0],
     time = Fin 0,
     mouseX = Fin 0, mouseY = Fin 0, lastMouseX = Fin 0, lastMouseY = Fin 0,
     mouseVelX = Fin 0, mouseVelY = Fin 0, smoothMouseVelX = Fin 1, smoothMouseVelY = Fin 0,
     isMouseOver = True \<rparr>"

subsection \<open>The blade grid\<close>

text \<open>
  The column count: that for mobile when the width is at or below the breakpoint,
  that for desktop otherwise.
\<close>

definition grid_columns :: "GrassWindBackground \<Rightarrow> number" where
  "grid_columns s =
     (if width s \<le> mobileBreakpoint (config s) then gridColumnsMobile (config s)
      else gridColumnsDesktop (config s))"

text \<open>The number of blades after a setup that returns.\<close>

definition blade_count :: "(GrassWindBackground \<times> nat) option \<Rightarrow> nat option" where
  "blade_count r = map_option (\<lambda>p. length (blades (fst p))) r"

text \<open>
  A random source that always returns \<open>1/2\<close>; a simulation under the defaults in a
  container of a given width and height.
\<close>

definition half_source :: random_source where
  "half_source k = 1 / 2"

definition default_sim :: "real \<Rightarrow> real \<Rightarrow> GrassWindBackground" where
  "default_sim w h = \<lparr>
     config = DEFAULTS,
     width = Fin w,
     height = Fin h,
     blades = [],
     gusts = [],
     time = Fin 0,
     mouseX = Fin 0, mouseY = Fin 0, lastMouseX = Fin 0, lastMouseY = Fin 0,
     mouseVelX = Fin 0, mouseVelY = Fin 0, smoothMouseVelX = Fin 0, smoothMouseVelY = Fin 0,
     isMouseOver = False \<rparr>"

section \<open>Rounding: the nearest double\<close>

lemma round_even_bounds: "\<lfloor>x\<rfloor> \<le> round_even x \<and> round_even x \<le> \<lfloor>x\<rfloor> + 1"
  by (simp add: round_even_def)

lemma round_even_of_int [simp]: "round_even (of_int k) = k"
  by (simp add: round_even_def)

lemma round_even_mono:
  assumes "x \<le> y"
  shows "round_even x \<le> round_even y"
proof (cases "\<lfloor>x\<rfloor> = \<lfloor>y\<rfloor>")
  case True
  then show ?thesis using assms by (auto simp: round_even_def)
next
  case False
  then have "\<lfloor>x\<rfloor> + 1 \<le> \<lfloor>y\<rfloor>"
    using floor_mono [OF assms] by linarith
  then show ?thesis
    using round_even_bounds [of x] round_even_bounds [of y] by linarith
qed

lemma round_even_err: "\<bar>of_int (round_even x) - x\<bar> \<le> 1 / 2"
proof -
  define d where "d = x - of_int \<lfloor>x\<rfloor>"
  have d: "0 \<le> d" "d < 1" "x = of_int \<lfloor>x\<rfloor> + d"
    unfolding d_def by linarith+
  consider "d < 1 / 2" | "1 / 2 < d" | "d = 1 / 2" by linarith
  then show ?thesis
  proof cases
    case 1
    then have "round_even x = \<lfloor>x\<rfloor>" by (simp add: round_even_def d_def)
    then show ?thesis using d 1 by simp
  next
    case 2
    then have "round_even x = \<lfloor>x\<rfloor> + 1" by (simp add: round_even_def d_def)
    then show ?thesis using d 2 by simp
  next
    case 3
    then have "round_even x = \<lfloor>x\<rfloor> \<or> round_even x = \<lfloor>x\<rfloor> + 1"
      by (simp add: round_even_def d_def)
    then show ?thesis using d 3 by auto
  qed
qed

lemma round_even_uminus: "round_even (- x) = - round_even x"
proof (cases "x = of_int \<lfloor>x\<rfloor>")
  case True
  then obtain k where "x = of_int k" ..
  then show ?thesis
    by (simp flip: of_int_minus)
next
  case False
  have "of_int \<lfloor>x\<rfloor> < x" using False by linarith
  then have f: "\<lfloor>- x\<rfloor> = - \<lfloor>x\<rfloor> - 1"
    by (intro floor_unique; simp; linarith)
  define d where "d = x - of_int \<lfloor>x\<rfloor>"
  have e: "- x - of_int (- \<lfloor>x\<rfloor> - 1) = 1 - d"
    by (simp add: d_def)
  have ev: "even (- \<lfloor>x\<rfloor> - 1) \<longleftrightarrow> odd \<lfloor>x\<rfloor>"
    by simp
  consider "d < 1 / 2" | "1 / 2 < d" | "d = 1 / 2" by linarith
  then show ?thesis
  proof cases
    case 1
    then show ?thesis unfolding round_even_def f e ev d_def [symmetric] by simp
  next
    case 2
    then show ?thesis unfolding round_even_def f e ev d_def [symmetric] by simp
  next
    case 3
    then show ?thesis unfolding round_even_def f e ev d_def [symmetric] by simp
  qed
qed


lemma two_powr_int: "2 powr (of_int k) = (2::real) powi k"
  by (simp add: powr_real_of_int power_int_def power_inverse field_simps)

lemma two_powi_mono: "a \<le> b \<Longrightarrow> (2::real) powi a \<le> 2 powi b"
  by (rule power_int_increasing) simp_all

lemma two_powi_strict_mono: "a < b \<Longrightarrow> (2::real) powi a < 2 powi b"
  by (rule power_int_strict_increasing) simp_all

lemma two_powi_le_iff: "(2::real) powi a \<le> 2 powi b \<longleftrightarrow> a \<le> b"
  using two_powi_mono [of a b] two_powi_strict_mono [of b a] by (auto simp: not_le [symmetric])

lemma two_powi_less_iff: "(2::real) powi a < 2 powi b \<longleftrightarrow> a < b"
  using two_powi_strict_mono [of a b] two_powi_mono [of b a] by (auto simp: not_less [symmetric])

lemma two_powi_Suc: "(2::real) powi (a + 1) = 2 * 2 powi a"
  by (simp add: power_int_add)

lemma binade_eq:
  assumes "2 powi e \<le> \<bar>x\<bar>" "\<bar>x\<bar> < 2 powi (e + 1)" "- 1022 \<le> e"
  shows "binade x = e"
proof -
  have pos: "0 < \<bar>x\<bar>"
    using assms(1) zero_less_power_int [of "2::real" e] by linarith
  have "(2::real) powi (- 1022) \<le> 2 powi e"
    using assms(3) by (rule two_powi_mono)
  then have big: "\<not> \<bar>x\<bar> < 2 powi (- 1022)"
    using assms(1) by linarith
  have "\<lfloor>log 2 \<bar>x\<bar>\<rfloor> = e"
    using pos assms(1,2) by (subst floor_log_eq_powr_iff) (simp_all flip: two_powr_int)
  then show ?thesis
    using big by (simp add: binade_def)
qed

lemma binade_ge: "- 1022 \<le> binade x"
proof (cases "\<bar>x\<bar> < 2 powi (- 1022)")
  case True
  then show ?thesis by (simp add: binade_def)
next
  case False
  then have le: "2 powi (- 1022) \<le> \<bar>x\<bar>" by simp
  then have pos: "0 < \<bar>x\<bar>"
    using zero_less_power_int [of "2::real" "- 1022"] by linarith
  have "2 powr (of_int (- 1022)) \<le> \<bar>x\<bar>"
    using le by (simp only: two_powr_int)
  then have "of_int (- 1022) \<le> log 2 \<bar>x\<bar>"
    using pos by (simp add: le_log_iff)
  then have "- 1022 \<le> \<lfloor>log 2 \<bar>x\<bar>\<rfloor>"
    by (simp add: le_floor_iff)
  then show ?thesis using False by (simp add: binade_def)
qed

lemma binade_upper: "\<bar>x\<bar> < 2 powi (binade x + 1)"
proof (cases "\<bar>x\<bar> < 2 powi (- 1022)")
  case True
  have "(2::real) powi (- 1022) \<le> 2 powi (- 1022 + 1)"
    by (rule two_powi_mono) simp
  then show ?thesis using True by (simp add: binade_def)
next
  case False
  then have le: "2 powi (- 1022) \<le> \<bar>x\<bar>" by simp
  then have pos: "0 < \<bar>x\<bar>"
    using zero_less_power_int [of "2::real" "- 1022"] by linarith
  have "\<lfloor>log 2 \<bar>x\<bar>\<rfloor> = \<lfloor>log 2 \<bar>x\<bar>\<rfloor>" ..
  then have "\<bar>x\<bar> < 2 powr (of_int (\<lfloor>log 2 \<bar>x\<bar>\<rfloor> + 1))"
    using pos by (subst (asm) floor_log_eq_powr_iff) simp_all
  then show ?thesis
    using False by (simp only: two_powr_int binade_def if_False)
qed

lemma binade_lower:
  assumes "2 powi (- 1022) \<le> \<bar>x\<bar>"
  shows "2 powi (binade x) \<le> \<bar>x\<bar>"
proof -
  have pos: "0 < \<bar>x\<bar>"
    using assms zero_less_power_int [of "2::real" "- 1022"] by linarith
  have "\<lfloor>log 2 \<bar>x\<bar>\<rfloor> = \<lfloor>log 2 \<bar>x\<bar>\<rfloor>" ..
  then have "2 powr (of_int \<lfloor>log 2 \<bar>x\<bar>\<rfloor>) \<le> \<bar>x\<bar>"
    using pos by (subst (asm) floor_log_eq_powr_iff) simp_all
  moreover have "\<not> \<bar>x\<bar> < 2 powi (- 1022)" using assms by simp
  ultimately show ?thesis
    by (simp only: two_powr_int binade_def if_False)
qed

lemma binade_lower': "- 1022 < binade x \<Longrightarrow> 2 powi (binade x) \<le> \<bar>x\<bar>"
  by (rule binade_lower) (auto simp: binade_def split: if_splits)

lemma binade_uminus [simp]: "binade (- x) = binade x"
  by (simp add: binade_def)

lemma binade_abs [simp]: "binade \<bar>x\<bar> = binade x"
  by (simp add: binade_def)

lemma binade_mono:
  assumes "\<bar>x\<bar> \<le> \<bar>y\<bar>"
  shows "binade x \<le> binade y"
proof (rule ccontr)
  assume "\<not> binade x \<le> binade y"
  then have lt: "binade y + 1 \<le> binade x" by simp
  then have "- 1022 < binade x" using binade_ge [of y] by linarith
  then have "2 powi (binade x) \<le> \<bar>x\<bar>" by (rule binade_lower')
  moreover have "(2::real) powi (binade y + 1) \<le> 2 powi (binade x)"
    using lt by (rule two_powi_mono)
  ultimately show False
    using binade_upper [of y] assms by linarith
qed

lemma ulp_pos [simp]: "0 < ulp x"
  by (simp add: ulp_def)

lemma ulp_nonneg [simp]: "0 \<le> ulp x"
  by (simp add: ulp_def)

lemma ulp_nonzero [simp]: "ulp x \<noteq> 0"
  by (simp add: ulp_def)

lemma round_even_0 [simp]: "round_even 0 = 0"
  using round_even_of_int [of 0] by simp

lemma ulp_uminus [simp]: "ulp (- x) = ulp x"
  by (simp add: ulp_def)

lemma nearest_uminus: "nearest (- x) = - nearest x"
  by (simp add: nearest_def round_even_uminus)

lemma nearest_0 [simp]: "nearest 0 = 0"
  by (simp add: nearest_def)

lemma two_powi_53: "(2::real) powi (e + 1) = 2 ^ 53 * 2 powi (e - 52)"
proof -
  have "e + 1 = 53 + (e - 52)" by simp
  then have "(2::real) powi (e + 1) = 2 powi (53 + (e - 52))" by (rule arg_cong)
  also have "\<dots> = 2 powi 53 * 2 powi (e - 52)" by (subst power_int_add) simp_all
  finally show ?thesis by simp
qed

lemma two_powi_52: "(2::real) powi e = 2 ^ 52 * 2 powi (e - 52)"
proof -
  have "e = 52 + (e - 52)" by simp
  then have "(2::real) powi e = 2 powi (52 + (e - 52))" by (rule arg_cong)
  also have "\<dots> = 2 powi 52 * 2 powi (e - 52)" by (subst power_int_add) simp_all
  finally show ?thesis by simp
qed

lemma nearest_nonneg:
  assumes "0 \<le> x"
  shows "0 \<le> nearest x"
proof -
  have "0 \<le> x / ulp x" using assms by simp
  then have "round_even 0 \<le> round_even (x / ulp x)" by (rule round_even_mono)
  then have "0 \<le> round_even (x / ulp x)" using round_even_of_int [of 0] by simp
  then show ?thesis by (simp add: nearest_def)
qed

lemma nearest_upper:
  assumes "0 \<le> x"
  shows "nearest x \<le> 2 powi (binade x + 1)"
proof -
  have "x < 2 ^ 53 * ulp x"
    using binade_upper [of x] assms two_powi_53 [of "binade x"] by (simp add: ulp_def)
  then have "x / ulp x \<le> of_int (2 ^ 53)"
    by (simp add: pos_divide_le_eq)
  then have "round_even (x / ulp x) \<le> round_even (of_int (2 ^ 53))"
    by (rule round_even_mono)
  then have "round_even (x / ulp x) \<le> 2 ^ 53"
    by (simp only: round_even_of_int)
  then have "(of_int (round_even (x / ulp x)) :: real) \<le> of_int (2 ^ 53)"
    by (simp only: of_int_le_iff)
  then have "nearest x \<le> 2 ^ 53 * ulp x"
    by (simp add: nearest_def)
  then show ?thesis using two_powi_53 [of "binade x"] by (simp add: ulp_def)
qed

lemma nearest_lower:
  assumes "2 powi (binade x) \<le> x"
  shows "2 powi (binade x) \<le> nearest x"
proof -
  have "2 ^ 52 * ulp x \<le> x"
    using assms two_powi_52 [of "binade x"] by (simp add: ulp_def)
  then have "of_int (2 ^ 52) \<le> x / ulp x"
    by (simp add: pos_le_divide_eq)
  then have "round_even (of_int (2 ^ 52)) \<le> round_even (x / ulp x)"
    by (rule round_even_mono)
  then have "2 ^ 52 \<le> round_even (x / ulp x)"
    by (simp only: round_even_of_int)
  then have "(of_int (2 ^ 52) :: real) \<le> of_int (round_even (x / ulp x))"
    by (simp only: of_int_le_iff)
  then have "2 ^ 52 * ulp x \<le> nearest x"
    by (simp add: nearest_def)
  then show ?thesis using two_powi_52 [of "binade x"] by (simp add: ulp_def)
qed

lemma nearest_mono_nonneg:
  assumes "0 \<le> x" "x \<le> y"
  shows "nearest x \<le> nearest y"
proof (cases "binade x = binade y")
  case True
  then have u: "ulp x = ulp y" by (simp add: ulp_def)
  have "x / ulp y \<le> y / ulp y"
    using assms(2) by (simp add: divide_right_mono)
  then have "round_even (x / ulp y) \<le> round_even (y / ulp y)"
    by (rule round_even_mono)
  then show ?thesis
    by (simp add: nearest_def u)
next
  case False
  have "binade x \<le> binade y"
    using assms by (intro binade_mono) simp
  then have lt: "binade x + 1 \<le> binade y" using False by simp
  then have "- 1022 < binade y" using binade_ge [of x] by linarith
  then have "2 powi (binade y) \<le> \<bar>y\<bar>" by (rule binade_lower')
  then have "2 powi (binade y) \<le> y" using assms by simp
  then have "2 powi (binade y) \<le> nearest y" by (rule nearest_lower)
  moreover have "nearest x \<le> 2 powi (binade x + 1)"
    using assms(1) by (rule nearest_upper)
  moreover have "(2::real) powi (binade x + 1) \<le> 2 powi (binade y)"
    using lt by (rule two_powi_mono)
  ultimately show ?thesis by linarith
qed

lemma nearest_mono:
  assumes "x \<le> y"
  shows "nearest x \<le> nearest y"
proof -
  consider "0 \<le> x" | "x < 0" "0 \<le> y" | "y < 0" using assms by linarith
  then show ?thesis
  proof cases
    case 1
    then show ?thesis using assms by (rule nearest_mono_nonneg)
  next
    case 2
    have "0 \<le> nearest (- x)" using 2 by (intro nearest_nonneg) simp
    then have "nearest x \<le> 0" by (simp add: nearest_uminus)
    moreover have "0 \<le> nearest y" using 2 by (intro nearest_nonneg)
    ultimately show ?thesis by linarith
  next
    case 3
    have "nearest (- y) \<le> nearest (- x)"
      using 3 assms by (intro nearest_mono_nonneg) simp_all
    then show ?thesis by (simp add: nearest_uminus)
  qed
qed

lemma nearest_err: "\<bar>nearest x - x\<bar> \<le> ulp x / 2"
proof -
  have "\<bar>of_int (round_even (x / ulp x)) - x / ulp x\<bar> \<le> 1 / 2"
    by (rule round_even_err)
  then have "\<bar>of_int (round_even (x / ulp x)) - x / ulp x\<bar> * ulp x \<le> 1 / 2 * ulp x"
    by (intro mult_right_mono) simp_all
  moreover have "\<bar>of_int (round_even (x / ulp x)) - x / ulp x\<bar> * ulp x = \<bar>nearest x - x\<bar>"
  proof -
    have "\<bar>of_int (round_even (x / ulp x)) - x / ulp x\<bar> * ulp x
          = \<bar>(of_int (round_even (x / ulp x)) - x / ulp x) * ulp x\<bar>"
      by (simp add: abs_mult)
    also have "(of_int (round_even (x / ulp x)) - x / ulp x) * ulp x = nearest x - x"
      by (simp add: nearest_def algebra_simps)
    finally show ?thesis .
  qed
  ultimately show ?thesis by simp
qed


lemma two_powi_split:
  assumes "0 \<le> j"
  shows "(2::real) powi (j + b) = 2 ^ nat j * 2 powi b"
proof -
  have "(2::real) powi (j + b) = 2 powi j * 2 powi b"
    by (subst power_int_add) simp_all
  then show ?thesis using assms by (simp add: power_int_nonneg_exp)
qed

lemma nearest_of_int_ulp:
  assumes "x = of_int n * ulp x"
  shows "nearest x = x"
proof -
  have "x / ulp x = of_int n"
    using assms by (simp add: field_simps)
  then have "nearest x = of_int n * ulp x"
    by (simp add: nearest_def)
  then show ?thesis using assms by simp
qed

lemma nearest_grid:
  assumes m: "\<bar>m\<bar> \<le> 2 ^ 53" and k: "- 1074 \<le> k"
  shows "nearest (of_int m * 2 powi k) = of_int m * 2 powi k"
proof -
  define x :: real where "x = of_int m * 2 powi k"
  define e where "e = binade x"
  have ax: "\<bar>x\<bar> = of_int \<bar>m\<bar> * 2 powi k"
    by (simp add: x_def abs_mult)
  have u: "ulp x = 2 powi (e - 52)"
    by (simp add: ulp_def e_def)
  have "\<exists>n. x = of_int n * ulp x"
  proof (cases "e - 52 \<le> k")
    case True
    then have "(2::real) powi (k - (e - 52) + (e - 52)) = 2 ^ nat (k - (e - 52)) * 2 powi (e - 52)"
      by (intro two_powi_split) simp
    then have "(2::real) powi k = 2 ^ nat (k - (e - 52)) * 2 powi (e - 52)"
      by simp
    then have "of_int m * (2::real) powi k = of_int (m * 2 ^ nat (k - (e - 52))) * 2 powi (e - 52)"
      by simp
    then have "x = of_int (m * 2 ^ nat (k - (e - 52))) * ulp x"
      unfolding u x_def [symmetric] .
    then show ?thesis ..
  next
    case False
    then have gt: "k + 53 \<le> e" by simp
    then have "- 1022 < e" using k by linarith
    then have "2 powi e \<le> \<bar>x\<bar>"
      unfolding e_def by (rule binade_lower')
    moreover have "(2::real) powi (k + 53) \<le> 2 powi e"
      using gt by (rule two_powi_mono)
    moreover have "(2::real) powi (k + 53) = 2 ^ 53 * 2 powi k"
      by (subst power_int_add) (simp_all add: mult.commute)
    ultimately have "2 ^ 53 * 2 powi k \<le> of_int \<bar>m\<bar> * (2::real) powi k"
      using ax by linarith
    then have "(2::real) ^ 53 \<le> of_int \<bar>m\<bar>"
      by simp
    then have "(of_int (2 ^ 53) :: real) \<le> of_int \<bar>m\<bar>" by simp
    then have "2 ^ 53 \<le> \<bar>m\<bar>" by (simp only: of_int_le_iff)
    then have am: "\<bar>m\<bar> = 2 ^ 53" using m by simp
    have "\<bar>x\<bar> = 2 powi (k + 53)"
      using ax am \<open>(2::real) powi (k + 53) = 2 ^ 53 * 2 powi k\<close> by simp
    then have "\<bar>x\<bar> < 2 powi (k + 53 + 1)"
      using two_powi_strict_mono [of "k + 53" "k + 53 + 1"] by simp
    moreover have "2 powi (k + 53) \<le> \<bar>x\<bar>"
      using \<open>\<bar>x\<bar> = 2 powi (k + 53)\<close> by simp
    ultimately have "binade x = k + 53"
      using k by (intro binade_eq) simp_all
    then have e: "e - 52 = k + 1" by (simp add: e_def)
    have "m = 2 ^ 53 \<or> m = - (2 ^ 53)"
      using am by (simp add: abs_if split: if_splits)
    then have "m = 2 * (m div 2)"
      by auto
    then have "(of_int m :: real) = 2 * of_int (m div 2)"
      by (metis of_int_mult of_int_numeral)
    then have "of_int m * (2::real) powi k = of_int (m div 2) * 2 powi (k + 1)"
      by (simp add: two_powi_Suc)
    then have "x = of_int (m div 2) * ulp x"
      unfolding u e x_def [symmetric] .
    then show ?thesis ..
  qed
  then obtain n where "x = of_int n * ulp x" ..
  then have "nearest x = x" by (rule nearest_of_int_ulp)
  then show ?thesis by (simp add: x_def)
qed

lemma nearest_of_int:
  assumes "\<bar>m\<bar> \<le> 2 ^ 53"
  shows "nearest (of_int m) = of_int m"
  using nearest_grid [OF assms, of 0] by simp

lemma round_even_abs_le:
  assumes "\<bar>y\<bar> \<le> of_int N"
  shows "\<bar>round_even y\<bar> \<le> N"
proof -
  have "round_even y \<le> round_even (of_int N)"
    using assms by (intro round_even_mono) simp
  moreover have "round_even (of_int (- N)) \<le> round_even y"
    using assms by (intro round_even_mono) simp
  ultimately show ?thesis
    unfolding round_even_of_int by linarith
qed

lemma nearest_mantissa: "\<bar>round_even (x / ulp x)\<bar> \<le> 2 ^ 53"
proof -
  have "\<bar>x\<bar> < 2 ^ 53 * ulp x"
    using binade_upper [of x] two_powi_53 [of "binade x"] by (simp add: ulp_def)
  then have "\<bar>x\<bar> / ulp x \<le> 2 ^ 53"
    by (simp add: pos_divide_le_eq)
  then have "\<bar>x / ulp x\<bar> \<le> of_int (2 ^ 53)"
    by simp
  then show ?thesis by (rule round_even_abs_le)
qed

lemma nearest_idem [simp]: "nearest (nearest x) = nearest x"
proof -
  have "- 1074 \<le> binade x - 52" using binade_ge [of x] by simp
  then show ?thesis
    unfolding nearest_def [of x] ulp_def [of x]
    by (intro nearest_grid nearest_mantissa [unfolded ulp_def])
qed

lemma nearest_multiple: "\<exists>n::int. nearest x = of_int n * 2 powi (- 1074)"
proof -
  define j where "j = binade x - 52 + 1074"
  have j: "0 \<le> j" using binade_ge [of x] by (simp add: j_def)
  have "(2::real) powi (j + (- 1074)) = 2 ^ nat j * 2 powi (- 1074)"
    using j by (rule two_powi_split)
  moreover have "j + (- 1074) = binade x - 52" by (simp add: j_def)
  ultimately have "(2::real) powi (binade x - 52) = 2 ^ nat j * 2 powi (- 1074)"
    by simp
  then have "nearest x = of_int (round_even (x / ulp x) * 2 ^ nat j) * 2 powi (- 1074)"
    by (simp add: nearest_def ulp_def)
  then show ?thesis ..
qed

lemma nearest_double:
  assumes "2 powi (- 1022) \<le> \<bar>x\<bar>"
  shows "nearest (2 * x) = 2 * nearest x"
proof -
  have "2 powi (binade x) \<le> \<bar>x\<bar>" using assms by (rule binade_lower)
  then have "2 powi (binade x + 1) \<le> \<bar>2 * x\<bar>"
    by (simp add: two_powi_Suc)
  moreover have "\<bar>2 * x\<bar> < 2 powi (binade x + 1 + 1)"
    using binade_upper [of x] two_powi_Suc [of "binade x + 1"] by simp
  ultimately have "binade (2 * x) = binade x + 1"
    using binade_ge [of x] by (intro binade_eq) simp_all
  then have "ulp (2 * x) = 2 * ulp x"
    using two_powi_Suc [of "binade x - 52"] by (simp add: ulp_def algebra_simps)
  then show ?thesis
    by (simp add: nearest_def)
qed

lemma nearest_eval:
  assumes "2 powi e \<le> \<bar>x\<bar>" "\<bar>x\<bar> < 2 powi (e + 1)" "- 1022 \<le> e"
  shows "nearest x = of_int (round_even (x / 2 powi (e - 52))) * 2 powi (e - 52)"
  using binade_eq [OF assms] by (simp add: nearest_def ulp_def)

lemma nearest_eval_small:
  assumes "\<bar>x\<bar> < 2 powi (- 1022)"
  shows "nearest x = of_int (round_even (x / 2 powi (- 1074))) * 2 powi (- 1074)"
  using assms by (simp add: nearest_def ulp_def binade_def)


section \<open>Arithmetic of Numbers\<close>

lemma is_double_0 [simp]: "is_double 0"
  by (simp add: is_double_def)

lemma is_double_of_int:
  assumes "\<bar>m\<bar> \<le> 2 ^ 53"
  shows "is_double (of_int m)"
proof -
  have "\<bar>of_int m :: real\<bar> \<le> of_int (2 ^ 53)"
    using assms by (simp only: of_int_abs [symmetric] of_int_le_iff)
  then have "\<bar>of_int m :: real\<bar> < 2 ^ 1024" by simp
  then show ?thesis
    using nearest_of_int [OF assms] by (simp add: is_double_def)
qed

lemma is_double_numeral [simp]:
  assumes "(numeral w :: int) \<le> 2 ^ 53"
  shows "is_double (numeral w)"
  using is_double_of_int [of "numeral w"] assms by simp

lemma is_double_1 [simp]: "is_double 1"
  using is_double_of_int [of 1] by simp

lemma is_double_uminus [simp]: "is_double (- x) \<longleftrightarrow> is_double x"
  by (auto simp: is_double_def nearest_uminus)

lemma is_double_nearest: "\<bar>nearest x\<bar> < 2 ^ 1024 \<Longrightarrow> is_double (nearest x)"
  by (simp add: is_double_def)

lemma is_double_grid:
  assumes "\<bar>m\<bar> \<le> 2 ^ 53" "- 1074 \<le> k" "\<bar>of_int m * (2::real) powi k\<bar> < 2 ^ 1024"
  shows "is_double (of_int m * 2 powi k)"
  using nearest_grid [OF assms(1,2)] assms(3) by (simp add: is_double_def)

lemma is_double_half [simp]: "is_double (1 / 2)"
  using is_double_grid [of 1 "- 1"] by simp

lemma fl_double [simp]: "is_double x \<Longrightarrow> fl x = Fin x"
  by (auto simp: is_double_def fl_def)

lemma fl_neq_NaN [simp]: "fl x \<noteq> NaN" "NaN \<noteq> fl x"
  by (simp_all add: fl_def)

lemma fl_cases:
  obtains "fl x = PInf" | "fl x = NInf" | y where "fl x = Fin y" "y = nearest x" "is_double y"
  by (cases "2 ^ 1024 \<le> nearest x"; cases "nearest x \<le> - (2 ^ 1024)")
    (auto simp: fl_def is_double_def)

lemma is_number_fl [simp]: "is_number (fl x)"
  by (rule fl_cases [of x]) simp_all

lemma fl_uminus: "fl (- x) = - fl x"
  by (auto simp: fl_def nearest_uminus)

lemma fl_mono:
  assumes "x \<le> y"
  shows "fl x \<le> fl y"
  using nearest_mono [OF assms] by (auto simp: fl_def)

lemma fl_le:
  assumes "x \<le> b" "is_double b"
  shows "fl x \<le> Fin b"
  using fl_mono [OF assms(1)] assms(2) by simp

lemma fl_ge:
  assumes "b \<le> x" "is_double b"
  shows "Fin b \<le> fl x"
  using fl_mono [OF assms(1)] assms(2) by simp

lemma fl_bounded:
  assumes "\<bar>x\<bar> \<le> b" "is_double b"
  shows "\<exists>y. fl x = Fin y \<and> \<bar>y\<bar> \<le> b \<and> is_double y"
proof -
  have b: "nearest b = b" "\<bar>b\<bar> < 2 ^ 1024"
    using assms(2) by (simp_all add: is_double_def)
  have "nearest x \<le> nearest b"
    using assms(1) by (intro nearest_mono) simp
  moreover have "nearest (- b) \<le> nearest x"
    using assms(1) by (intro nearest_mono) simp
  ultimately have n: "\<bar>nearest x\<bar> \<le> b"
    using b(1) by (simp add: nearest_uminus)
  then have "\<bar>nearest x\<bar> < 2 ^ 1024" using b(2) by linarith
  then have "fl x = Fin (nearest x)" "is_double (nearest x)"
    by (auto simp: fl_def is_double_def)
  then show ?thesis using n by blast
qed

lemma minus_Fin [simp]: "Fin a - Fin b = fl (a - b)"
  by (simp add: minus_number_def)

lemma signed_inf_simps [simp]:
  "signed_inf 1 = PInf" "signed_inf (- 1) = NInf" "signed_inf 0 = NaN"
  by (simp_all add: signed_inf_def)

lemma NaN_absorbs [simp]:
  "a + NaN = NaN" "NaN + a = NaN" "a - NaN = NaN" "NaN - a = NaN"
  "a * NaN = NaN" "NaN * a = NaN" "a / NaN = NaN" "NaN / a = NaN"
  by (cases a; simp add: minus_number_def)+

lemma NaN_compare [simp]:
  "\<not> a < NaN" "\<not> NaN < a" "\<not> a \<le> NaN" "\<not> NaN \<le> a"
  by (cases a; simp)+

lemma is_fin_iff: "is_fin a \<longleftrightarrow> (\<exists>r. a = Fin r)"
  by (cases a) simp_all

lemma num_le_refl: "a \<noteq> NaN \<Longrightarrow> a \<le> (a::number)"
  by (cases a) simp_all

lemma num_le_trans: "a \<le> b \<Longrightarrow> b \<le> c \<Longrightarrow> a \<le> (c::number)"
  by (cases a; cases b; cases c) simp_all

lemma num_less_le: "a < b \<Longrightarrow> a \<le> (b::number)"
  by (cases a; cases b) simp_all

lemma num_not_less: "a \<noteq> NaN \<Longrightarrow> b \<noteq> NaN \<Longrightarrow> \<not> a < b \<longleftrightarrow> b \<le> (a::number)"
  by (cases a; cases b) auto

lemma clamp_eq:
  assumes "Fin 0 \<le> mb"
  shows "Math_max (- mb) (Math_min mb a) = clamp_to_interval (- mb) mb a"
  using assms by (cases mb; cases a) (auto simp: clamp_to_interval_def)

lemma fl_in:
  assumes "lo \<le> x" "x \<le> hi" "is_double lo" "is_double hi"
  shows "\<exists>y. fl x = Fin y \<and> lo \<le> y \<and> y \<le> hi \<and> is_double y"
proof -
  have lo: "nearest lo = lo" "\<bar>lo\<bar> < 2 ^ 1024" and hi: "nearest hi = hi" "\<bar>hi\<bar> < 2 ^ 1024"
    using assms(3,4) by (simp_all add: is_double_def)
  have n: "lo \<le> nearest x" "nearest x \<le> hi"
    using nearest_mono [OF assms(1)] nearest_mono [OF assms(2)] lo(1) hi(1) by simp_all
  then have "\<bar>nearest x\<bar> < 2 ^ 1024" using lo(2) hi(2) by linarith
  then have "fl x = Fin (nearest x)" "is_double (nearest x)"
    by (auto simp: fl_def is_double_def)
  then show ?thesis using n by blast
qed

lemma fl_fin_nearest:
  assumes "\<bar>x\<bar> \<le> b" "is_double b"
  shows "fl x = Fin (nearest x)"
proof -
  from fl_bounded [OF assms] obtain y where y: "fl x = Fin y" "\<bar>y\<bar> \<le> b" by blast
  then show ?thesis by (auto simp: fl_def split: if_splits)
qed

lemma is_number_plus [simp]: "is_number (a + b)"
  by (cases a; cases b) simp_all

lemma is_number_uminus [simp]: "is_number (- a) \<longleftrightarrow> is_number a"
  by (cases a) simp_all

lemma is_number_minus [simp]: "is_number (a - b)"
  by (simp add: minus_number_def)

lemma is_number_signed_inf [simp]: "is_number (signed_inf s)"
  by (simp add: signed_inf_def)

lemma is_number_times [simp]: "is_number (a * b)"
  by (cases a; cases b) simp_all

lemma is_number_divide [simp]: "is_number (a / b)"
  by (cases a; cases b) simp_all

lemma is_number_sqrt [simp]: "is_number a \<Longrightarrow> is_number (Math_sqrt a)"
  by (cases a) simp_all

lemma is_number_sin [simp]: "is_number (Math_sin a)"
  by (cases a) simp_all

lemma is_number_cos [simp]: "is_number (Math_cos a)"
  by (cases a) simp_all

lemma add_zero_number [simp]:
  assumes "is_number a"
  shows "a + Fin 0 = a" "Fin 0 + a = a"
  using assms by (cases a; simp)+

lemma lit_cong [cong]: "lit x = lit x"
  by (rule refl)

lemma lit_neq_NaN [simp]: "lit x \<noteq> NaN" "NaN \<noteq> lit x"
  by (simp_all add: lit_def)

lemma is_number_lit [simp]: "is_number (lit x)"
  by (simp add: lit_def)

lemma lit_in:
  assumes "lo \<le> x" "x \<le> hi" "is_double lo" "is_double hi"
  shows "\<exists>y. lit x = Fin y \<and> lo \<le> y \<and> y \<le> hi \<and> is_double y"
  unfolding lit_def using assms by (rule fl_in)


section \<open>Numbers in the unit interval\<close>

lemma unit_number_iff: "unit_number a \<longleftrightarrow> (\<exists>r. a = Fin r \<and> is_double r \<and> 0 \<le> r \<and> r \<le> 1)"
  by (cases a) simp_all

lemma unit_number_simps [simp]: "unit_number (Fin 0)" "unit_number (Fin 1)"
  by simp_all

lemma unit_is_number: "unit_number a \<Longrightarrow> is_number a"
  by (cases a) simp_all

lemma unit_fl:
  assumes "0 \<le> x" "x \<le> 1"
  shows "unit_number (fl x)"
  using fl_in [OF assms] by auto

lemma unit_mult:
  assumes "unit_number a" "unit_number b"
  shows "unit_number (a * b)"
proof -
  from assms obtain r s where "a = Fin r" "0 \<le> r" "r \<le> 1" "b = Fin s" "0 \<le> s" "s \<le> 1"
    by (auto simp: unit_number_iff)
  then show ?thesis
    by (simp add: unit_fl mult_le_one)
qed

lemma unit_complement:
  assumes "unit_number a"
  shows "unit_number (Fin 1 - a)"
proof -
  from assms obtain r where "a = Fin r" "0 \<le> r" "r \<le> 1"
    by (auto simp: unit_number_iff)
  then show ?thesis
    by (simp add: unit_fl)
qed

lemma double_on_grid:
  assumes "is_double t" "2 powi k \<le> \<bar>t\<bar>" "- 1022 \<le> k"
  shows "\<exists>n::int. t = of_int n * 2 powi (k - 52)"
proof -
  have "\<bar>2 powi k :: real\<bar> \<le> \<bar>t\<bar>" using assms(2) by simp
  then have "binade (2 powi k :: real) \<le> binade t" by (rule binade_mono)
  moreover have "binade (2 powi k :: real) = k"
    using assms(3) two_powi_strict_mono [of k "k + 1"] by (intro binade_eq) simp_all
  ultimately have j: "0 \<le> binade t - k" by simp
  have "(2::real) powi ((binade t - k) + (k - 52)) = 2 ^ nat (binade t - k) * 2 powi (k - 52)"
    using j by (rule two_powi_split)
  then have u: "ulp t = 2 ^ nat (binade t - k) * 2 powi (k - 52)"
    by (simp add: ulp_def)
  have "t = nearest t" using assms(1) by (simp add: is_double_def)
  also have "\<dots> = of_int (round_even (t / ulp t)) * ulp t" by (simp add: nearest_def)
  also have "\<dots> = of_int (round_even (t / ulp t) * 2 ^ nat (binade t - k)) * 2 powi (k - 52)"
    by (simp add: u)
  finally show ?thesis ..
qed

lemma nearest_above_one: "nearest (1 + 1 / 2 ^ 54) = 1"
  by (subst nearest_eval [where e = 0]) (simp_all add: round_even_def)

lemma ulp_below_one:
  assumes "\<bar>x\<bar> < 1"
  shows "ulp x \<le> 1 / 2 ^ 53"
proof -
  have "binade x \<le> - 1"
  proof (rule ccontr)
    assume "\<not> binade x \<le> - 1"
    then have "0 \<le> binade x" by simp
    then have "(2::real) powi 0 \<le> 2 powi (binade x)" by (rule two_powi_mono)
    moreover have "2 powi (binade x) \<le> \<bar>x\<bar>"
      using \<open>0 \<le> binade x\<close> by (intro binade_lower') simp
    ultimately show False using assms by simp
  qed
  then have "(2::real) powi (binade x - 52) \<le> 2 powi (- 53)"
    by (intro two_powi_mono) simp
  then show ?thesis by (simp add: ulp_def power_int_minus_divide)
qed

lemma smooth_identity:
  "(t * t + e) * (3 - 2 * t) = 1 + e - (1 - t) * ((1 - t) * (1 + 2 * t) - 2 * (e::real))"
  by (simp add: algebra_simps)

lemma smooth_poly_high:
  assumes t: "is_double t" "1 / 2 < t" "t < 1"
  shows "nearest (nearest (t * t) * (3 - 2 * t)) \<le> 1"
proof -
  have "2 powi (- 1) \<le> \<bar>t\<bar>" using t by simp
  from double_on_grid [OF t(1) this] obtain n :: int where n: "t = of_int n * 2 powi (- 53)"
    by auto
  then have tn: "t = of_int n / 2 ^ 53" by (simp add: power_int_minus_divide)
  have "of_int n < (2 ^ 53 :: real)" using t(3) tn by (simp add: field_simps)
  then have "of_int n < (of_int (2 ^ 53) :: real)" by simp
  then have "n < 2 ^ 53" by (simp only: of_int_less_iff)
  then have "n + 1 \<le> 2 ^ 53" by simp
  then have "(of_int (n + 1) :: real) \<le> of_int (2 ^ 53)" by (simp only: of_int_le_iff)
  then have d: "1 / 2 ^ 53 \<le> 1 - t" using tn by (simp add: field_simps)
  have "t * t < 1 * 1"
    using t by (intro mult_strict_mono) simp_all
  then have "\<bar>t * t\<bar> < 1"
    by simp
  then have "ulp (t * t) \<le> 1 / 2 ^ 53" by (rule ulp_below_one)
  then have "ulp (t * t) / 2 \<le> 1 / 2 ^ 54" by simp
  moreover have "nearest (t * t) - t * t \<le> ulp (t * t) / 2"
    using nearest_err [of "t * t"] by linarith
  ultimately have "nearest (t * t) \<le> t * t + 1 / 2 ^ 54"
    by linarith
  moreover have "0 \<le> 3 - 2 * t" using t by simp
  ultimately have "nearest (t * t) * (3 - 2 * t) \<le> (t * t + 1 / 2 ^ 54) * (3 - 2 * t)"
    by (rule mult_right_mono)
  also have "\<dots> = 1 + 1 / 2 ^ 54 - (1 - t) * ((1 - t) * (1 + 2 * t) - 2 * (1 / 2 ^ 54))"
    by (rule smooth_identity)
  also have "\<dots> = 1 + 1 / 2 ^ 54 - (1 - t) * ((1 - t) * (1 + 2 * t) - 1 / 2 ^ 53)"
    by simp
  also have "\<dots> \<le> 1 + 1 / 2 ^ 54"
  proof -
    define P where "P = (1 - t) * (1 + 2 * t)"
    have "(1 - t) * 1 \<le> (1 - t) * (1 + 2 * t)"
      using t by (intro mult_left_mono) simp_all
    then have "1 - t \<le> P" by (simp add: P_def)
    then have "0 \<le> P - 1 / 2 ^ 53" using d by linarith
    then have "0 \<le> (1 - t) * (P - 1 / 2 ^ 53)"
      using t by (intro mult_nonneg_nonneg) simp_all
    then show ?thesis unfolding P_def by linarith
  qed
  finally have "nearest (nearest (t * t) * (3 - 2 * t)) \<le> nearest (1 + 1 / 2 ^ 54)"
    by (rule nearest_mono)
  then show ?thesis by (simp only: nearest_above_one)
qed

lemma is_double_quarter [simp]: "is_double (1 / 4)"
  using is_double_grid [of 1 "- 2"] by simp

lemma double_twice:
  assumes "is_double r" "1 / 2 \<le> r" "r \<le> 1"
  shows "is_double (2 * r)"
proof -
  have "2 powi (- 1022) \<le> \<bar>r\<bar>"
  proof -
    have "(2::real) powi (- 1022) \<le> 2 powi (- 1)" by (rule two_powi_mono) simp
    then show ?thesis using assms(2) by simp
  qed
  then have "nearest (2 * r) = 2 * nearest r" by (rule nearest_double)
  then have "nearest (2 * r) = 2 * r" using assms(1) by (simp add: is_double_def)
  moreover have "\<bar>2 * r\<bar> < 2 ^ 1024" using assms(2,3) by simp
  ultimately show ?thesis by (simp add: is_double_def)
qed

lemma three_minus_double:
  assumes "is_double r" "1 / 2 \<le> r" "r \<le> 1"
  shows "is_double (3 - 2 * r)"
proof -
  have "2 powi (- 1) \<le> \<bar>r\<bar>" using assms(2) by simp
  from double_on_grid [OF assms(1) this] obtain n :: int where "r = of_int n * 2 powi (- 53)"
    by auto
  then have rn: "r = of_int n / 2 ^ 53" by (simp add: power_int_minus_divide)
  define m where "m = 3 * 2 ^ 52 - n"
  have eq: "3 - 2 * r = of_int m * 2 powi (- 52)"
    by (simp add: m_def rn power_int_minus_divide field_simps)
  have "0 \<le> 3 - 2 * r" "3 - 2 * r \<le> 2" using assms(2,3) by simp_all
  then have "0 \<le> of_int m * (2::real) powi (- 52)" "of_int m * (2::real) powi (- 52) \<le> 2"
    by (simp_all only: eq)
  then have "(of_int 0 :: real) \<le> of_int m" "(of_int m :: real) \<le> of_int (2 ^ 53)"
    by (simp_all add: power_int_minus_divide field_simps)
  then have "0 \<le> m" "m \<le> 2 ^ 53" by (simp_all only: of_int_le_iff)
  then have "\<bar>m\<bar> \<le> 2 ^ 53" by simp
  moreover have "\<bar>of_int m * (2::real) powi (- 52)\<bar> < 2 ^ 1024"
    using \<open>0 \<le> 3 - 2 * r\<close> \<open>3 - 2 * r \<le> 2\<close> by (simp only: eq [symmetric]) simp
  ultimately have "is_double (of_int m * 2 powi (- 52))"
    by (intro is_double_grid) simp_all
  then show ?thesis by (simp only: eq)
qed

lemma smooth_poly_unit:
  assumes "unit_number t"
  shows "unit_number (t * t * (Fin 3 - Fin 2 * t))"
proof -
  from assms obtain r where t: "t = Fin r" "is_double r" "0 \<le> r" "r \<le> 1"
    by (auto simp: unit_number_iff)
  consider "r \<le> 1 / 2" | "1 / 2 < r" "r < 1" | "r = 1" using t(4) by linarith
  then show ?thesis
  proof cases
    case 1
    have "r * r \<le> (1 / 2) * (1 / 2)"
      using 1 t(3) by (intro mult_mono) simp_all
    then have "0 \<le> r * r" "r * r \<le> 1 / 4" using t(3) by simp_all
    from fl_in [OF this] obtain p where p: "fl (r * r) = Fin p" "0 \<le> p" "p \<le> 1 / 4"
      by auto
    have "0 \<le> 2 * r" "2 * r \<le> 1" using 1 t(3) by simp_all
    from fl_in [OF this] obtain d where d: "fl (2 * r) = Fin d" "0 \<le> d" "d \<le> 1"
      by auto
    have "2 \<le> 3 - d" "3 - d \<le> 3" using d by simp_all
    from fl_in [OF this] obtain q where q: "fl (3 - d) = Fin q" "2 \<le> q" "q \<le> 3"
      by auto
    have "p * q \<le> (1 / 4) * 3"
      using p q by (intro mult_mono) simp_all
    then have "0 \<le> p * q" "p * q \<le> 1" using p q by simp_all
    then have "unit_number (fl (p * q))" by (rule unit_fl)
    then show ?thesis by (simp add: t(1) p d q)
  next
    case 2
    have two: "fl (2 * r) = Fin (2 * r)"
      using double_twice [OF t(2)] 2 by simp
    have three: "fl (3 - 2 * r) = Fin (3 - 2 * r)"
      using three_minus_double [OF t(2)] 2 by simp
    have "\<bar>r * r\<bar> \<le> 1"
      using t(3,4) by (simp add: abs_mult mult_le_one)
    then have sq: "fl (r * r) = Fin (nearest (r * r))"
      by (rule fl_fin_nearest) simp
    have up: "nearest (nearest (r * r) * (3 - 2 * r)) \<le> 1"
      using t(2) 2 by (rule smooth_poly_high)
    have "0 \<le> nearest (r * r)" by (intro nearest_nonneg) simp
    then have "0 \<le> nearest (r * r) * (3 - 2 * r)" using 2 by simp
    then have lo: "0 \<le> nearest (nearest (r * r) * (3 - 2 * r))" by (rule nearest_nonneg)
    have "\<bar>nearest (nearest (r * r) * (3 - 2 * r))\<bar> < 2 ^ 1024" using lo up by simp
    then have "fl (nearest (r * r) * (3 - 2 * r)) = Fin (nearest (nearest (r * r) * (3 - 2 * r)))"
      "is_double (nearest (nearest (r * r) * (3 - 2 * r)))"
      by (auto simp: fl_def is_double_def)
    then show ?thesis using lo up by (simp add: t(1) two three sq)
  next
    case 3
    then show ?thesis by (simp add: t(1))
  qed
qed

lemma clamp_unit:
  assumes "is_number x"
  shows "Math_max (Fin 0) (Math_min (Fin 1) x) = NaN \<and> x = NaN
       \<or> unit_number (Math_max (Fin 0) (Math_min (Fin 1) x))"
  using assms by (cases x) auto

lemma smoothstep_unit: "smoothstep e0 e1 x = NaN \<or> unit_number (smoothstep e0 e1 x)"
proof -
  let ?t = "Math_max (Fin 0) (Math_min (Fin 1) ((x - e0) / (e1 - e0)))"
  have "?t = NaN \<or> unit_number ?t"
    using clamp_unit [of "(x - e0) / (e1 - e0)"] by auto
  then show ?thesis
  proof
    assume "?t = NaN"
    then show ?thesis by (simp add: smoothstep_def)
  next
    assume "unit_number ?t"
    then have "unit_number (?t * ?t * (Fin 3 - Fin 2 * ?t))" by (rule smooth_poly_unit)
    then show ?thesis by (simp add: smoothstep_def Let_def)
  qed
qed

lemma smoothstep_at_one:
  assumes "Math_max (Fin 0) (Math_min (Fin 1) ((x - e0) / (e1 - e0))) = Fin 1"
  shows "smoothstep e0 e1 x = Fin 1"
  using assms by (simp add: smoothstep_def)

lemma smoothstep_at_zero:
  assumes "Math_max (Fin 0) (Math_min (Fin 1) ((x - e0) / (e1 - e0))) = Fin 0"
  shows "smoothstep e0 e1 x = Fin 0"
  using assms by (simp add: smoothstep_def)


section \<open>The blade: the update step\<close>

text \<open>
  Claim C2. The update step is the sequence the specification gives: the magnitude
  \<open>m = sqrt(wx\<^sup>2 + wy\<^sup>2)\<close>; when \<open>m\<close> exceeds 0.001 the torque
  \<open>sin(atan2(wx, -wy) - angle) * m * stiffness\<close> is added to the velocity, and otherwise
  nothing is; the velocity is multiplied by the damping; the velocity is added to the
  angle; the angle is clamped to \<open>[-maxBend, +maxBend]\<close>. The interval is one when
  \<^verbatim>\<open>maxBend\<close> is not negative. Every operation is that of the program, on doubles,
  and the epsilon is the double of the literal \<^verbatim>\<open>0.001\<close>.
\<close>

theorem update_is_the_specified_sequence:
  assumes "Fin 0 \<le> maxBend (config_blade b)"
  shows "GrassBlade_update wx wy b = update_spec (lit 0.001) wx wy b"
  using assms
  by (simp add: GrassBlade_update_def clamp_to_max_bend_def update_angle_def apply_damping_def
      apply_torque_def update_spec_def Let_def clamp_eq)

lemma maxBend_DEFAULTS: "\<exists>mb. maxBend DEFAULTS = Fin mb \<and> is_double mb \<and> 4 \<le> mb \<and> mb \<le> 8"
proof -
  have "2 \<le> pi" "pi \<le> 4" using pi_ge_two pi_less_4 by simp_all
  from fl_in [OF this] obtain p where p: "fl pi = Fin p" "2 \<le> p" "p \<le> 4" by auto
  have "4 \<le> p * 2" "p * 2 \<le> 8" using p by simp_all
  from fl_in [OF this] obtain mb where "fl (p * 2) = Fin mb" "is_double mb" "4 \<le> mb" "mb \<le> 8"
    by auto
  then show ?thesis by (simp add: DEFAULTS_def Math_PI_def p)
qed

text \<open>The theorem on a default blade, at a wind that adds a torque.\<close>

theorem update_is_the_specified_sequence_witness:
  "Fin 0 \<le> maxBend (config_blade (GrassBlade_new (Fin 3) (Fin 4) (Fin 10) DEFAULTS (1 / 2)))
   \<and> GrassBlade_update (Fin 1) (Fin 0) (GrassBlade_new (Fin 3) (Fin 4) (Fin 10) DEFAULTS (1 / 2))
       = update_spec (lit 0.001) (Fin 1) (Fin 0)
           (GrassBlade_new (Fin 3) (Fin 4) (Fin 10) DEFAULTS (1 / 2))"
proof -
  have h: "Fin 0 \<le> maxBend (config_blade (GrassBlade_new (Fin 3) (Fin 4) (Fin 10) DEFAULTS (1 / 2)))"
    using maxBend_DEFAULTS by (auto simp: GrassBlade_new_def)
  show ?thesis
    using h update_is_the_specified_sequence [OF h, of "Fin 1" "Fin 0"] by simp
qed


section \<open>Literals and the noise field\<close>

lemma Math_PI_double: "\<exists>p. Math_PI = Fin p \<and> is_double p \<and> 2 \<le> p \<and> p \<le> 4"
proof -
  have "2 \<le> pi" "pi \<le> 4" using pi_ge_two pi_less_4 by simp_all
  from fl_in [OF this] show ?thesis by (auto simp: Math_PI_def)
qed

lemma fl_literal:
  assumes "0 \<le> x" "x \<le> 2 ^ 53"
  shows "\<exists>c. fl x = Fin c \<and> is_double c \<and> 0 \<le> c \<and> c \<le> 2 ^ 53"
proof -
  have "is_double (2 ^ 53)"
    using is_double_of_int [of "2 ^ 53"] by simp
  from fl_in [OF assms _ this] show ?thesis by auto
qed

lemma lit_literal:
  assumes "0 \<le> x" "x \<le> 2 ^ 53"
  shows "\<exists>c. lit x = Fin c \<and> is_double c \<and> 0 \<le> c \<and> c \<le> 2 ^ 53"
  unfolding lit_def using assms by (rule fl_literal)

lemma times_zero_fin [simp]: "Fin a * Fin 0 = Fin 0" "Fin 0 * Fin a = Fin 0"
  by simp_all

lemma lit_times_zero:
  assumes "0 \<le> x" "x \<le> 2 ^ 53"
  shows "Fin 0 * lit x = Fin 0" "lit x * Fin 0 = Fin 0"
  using lit_literal [OF assms] by auto

lemma noise2D_fin:
  assumes "x * lit 12.9898 + y * lit 78.233 + seed = Fin a"
  shows "unit_number (noise2D x y seed)"
proof -
  have "\<bar>sin a\<bar> \<le> 1" by simp
  from fl_bounded [OF this] obtain s where s: "fl (sin a) = Fin s" "\<bar>s\<bar> \<le> 1" by auto
  have "(0::real) \<le> 43758.5453" "(43758.5453::real) \<le> 2 ^ 53" by simp_all
  from lit_literal [OF this] obtain K where K: "lit 43758.5453 = Fin K" "0 \<le> K" "K \<le> 2 ^ 53"
    by auto
  have "\<bar>s * K\<bar> \<le> 1 * 2 ^ 53"
    unfolding abs_mult using s(2) K(2,3) by (intro mult_mono) simp_all
  moreover have "is_double (1 * 2 ^ 53)"
    using is_double_of_int [of "2 ^ 53"] by simp
  ultimately obtain n where n: "fl (s * K) = Fin n"
    using fl_bounded by blast
  have "0 \<le> n - of_int \<lfloor>n\<rfloor>" "n - of_int \<lfloor>n\<rfloor> \<le> 1" by linarith+
  then have "unit_number (fl (n - of_int \<lfloor>n\<rfloor>))" by (rule unit_fl)
  then show ?thesis
    unfolding noise2D_def Let_def assms
    by (simp only: Math_sin.simps s K times_number.simps n Math_floor.simps minus_Fin)
qed

lemma noise2D_not_fin:
  assumes "\<not> is_fin (x * lit 12.9898 + y * lit 78.233 + seed)"
  shows "noise2D x y seed = NaN"
proof -
  have "Math_sin (x * lit 12.9898 + y * lit 78.233 + seed) = NaN"
    using assms by (cases "x * lit 12.9898 + y * lit 78.233 + seed") simp_all
  then show ?thesis by (simp add: noise2D_def)
qed

lemma noise2D_cases: "noise2D x y seed = NaN \<or> unit_number (noise2D x y seed)"
  using noise2D_fin [of x y seed] noise2D_not_fin [of x y seed]
  by (cases "x * lit 12.9898 + y * lit 78.233 + seed") auto

lemma noise2D_small:
  assumes "\<bar>a\<bar> \<le> 2 ^ 53" "\<bar>b\<bar> \<le> 2 ^ 53" "\<bar>c\<bar> \<le> 2 ^ 53"
  shows "unit_number (noise2D (Fin a) (Fin b) (Fin c))"
proof -
  have big: "is_double (2 ^ 106)" "is_double (2 ^ 107)" "is_double (2 ^ 108)"
    using is_double_grid [of 1 106] is_double_grid [of 1 107] is_double_grid [of 1 108]
    by simp_all
  have "(0::real) \<le> 12.9898" "(12.9898::real) \<le> 2 ^ 53" by simp_all
  from lit_literal [OF this] obtain k1 where k1: "lit 12.9898 = Fin k1" "0 \<le> k1" "k1 \<le> 2 ^ 53"
    by auto
  have "(0::real) \<le> 78.233" "(78.233::real) \<le> 2 ^ 53" by simp_all
  from lit_literal [OF this] obtain k2 where k2: "lit 78.233 = Fin k2" "0 \<le> k2" "k2 \<le> 2 ^ 53"
    by auto
  have "\<bar>a * k1\<bar> \<le> 2 ^ 53 * 2 ^ 53"
    unfolding abs_mult using assms(1) k1(2,3) by (intro mult_mono) simp_all
  then have "\<bar>a * k1\<bar> \<le> 2 ^ 106" by simp
  from fl_bounded [OF this big(1)] obtain p where p: "fl (a * k1) = Fin p" "\<bar>p\<bar> \<le> 2 ^ 106"
    by auto
  have "\<bar>b * k2\<bar> \<le> 2 ^ 53 * 2 ^ 53"
    unfolding abs_mult using assms(2) k2(2,3) by (intro mult_mono) simp_all
  then have "\<bar>b * k2\<bar> \<le> 2 ^ 106" by simp
  from fl_bounded [OF this big(1)] obtain q where q: "fl (b * k2) = Fin q" "\<bar>q\<bar> \<le> 2 ^ 106"
    by auto
  have "\<bar>p + q\<bar> \<le> \<bar>p\<bar> + \<bar>q\<bar>" by (rule abs_triangle_ineq)
  also have "\<dots> \<le> 2 ^ 106 + 2 ^ 106" using p(2) q(2) by (rule add_mono)
  finally have "\<bar>p + q\<bar> \<le> 2 ^ 107" by simp
  from fl_bounded [OF this big(2)] obtain r where r: "fl (p + q) = Fin r" "\<bar>r\<bar> \<le> 2 ^ 107"
    by auto
  have "\<bar>r + c\<bar> \<le> \<bar>r\<bar> + \<bar>c\<bar>" by (rule abs_triangle_ineq)
  also have "\<dots> \<le> 2 ^ 107 + 2 ^ 53" using r(2) assms(3) by (rule add_mono)
  finally have "\<bar>r + c\<bar> \<le> 2 ^ 108" by simp
  from fl_bounded [OF this big(3)] obtain t where t: "fl (r + c) = Fin t"
    by auto
  have "Fin a * lit 12.9898 + Fin b * lit 78.233 + Fin c = Fin t"
    by (simp only: k1 k2 times_number.simps plus_number.simps p q r t)
  then show ?thesis by (rule noise2D_fin)
qed


section \<open>The container of size zero\<close>

lemma for_loop_stop:
  assumes "\<not> i < bound"
  shows "for_loop bound body i s = Some s"
  using assms by (subst for_loop.simps) simp

lemma for_loop_step:
  assumes "i < bound"
  shows "for_loop bound body i s = Option.bind (body i s) (for_loop bound body (i + Fin 1))"
  using assms by (subst for_loop.simps) simp

lemma degenerate_rows: "Math_ceil (Fin 0 / (Fin 0 / c)) = NaN"
  by (cases c) simp_all

text \<open>
  Claim C8. For a container whose width and height are both zero, under every
  configuration, \<^verbatim>\<open>setupBlades\<close> returns, with an empty blade list and without drawing
  a random number: the cell size is \<open>0\<close> or NaN, the row count \<open>ceil(0 / cellSize)\<close> is
  NaN, and no comparison with NaN holds, so the loop over the rows does not run. Over
  the empty list the blade loop of a frame changes nothing, a whole \<^verbatim>\<open>update\<close> leaves
  the list empty, and \<^verbatim>\<open>render\<close> only clears the canvas and resets the alpha.
\<close>

theorem zero_size_container_has_no_blades:
  assumes "width s = Fin 0" "height s = Fin 0"
  shows "setupBlades rnd k s = Some (s\<lparr>blades := []\<rparr>, k)
     \<and> update_blades now (s\<lparr>blades := []\<rparr>) = s\<lparr>blades := []\<rparr>
     \<and> blades (fst (update rnd' k' now deltaTime (s\<lparr>blades := []\<rparr>))) = []
     \<and> render (s\<lparr>blades := []\<rparr>)
         = [ClearRect (Fin 0) (Fin 0) (Fin 0) (Fin 0), SetGlobalAlpha (Fin 1)]"
proof -
  have "setupBlades rnd k s = Some (s\<lparr>blades := []\<rparr>, k)"
    using assms by (simp add: setupBlades_def Let_def degenerate_rows for_loop_stop)
  moreover have "update_blades now (s\<lparr>blades := []\<rparr>) = s\<lparr>blades := []\<rparr>"
    by (simp add: update_blades_def)
  moreover have "blades (fst (update rnd' k' now deltaTime (s\<lparr>blades := []\<rparr>))) = []"
    by (simp add: update_def Let_def update_blades_def spawn_gust_def update_mouse_def)
  moreover have "render (s\<lparr>blades := []\<rparr>)
         = [ClearRect (Fin 0) (Fin 0) (Fin 0) (Fin 0), SetGlobalAlpha (Fin 1)]"
    using assms by (simp add: render_def)
  ultimately show ?thesis by simp
qed

text \<open>The theorem on the default simulation in a container of size zero.\<close>

theorem zero_size_container_has_no_blades_witness:
  "setupBlades half_source 0 (default_sim 0 0) = Some (default_sim 0 0, 0)
   \<and> update_blades (Fin 0) (default_sim 0 0) = default_sim 0 0
   \<and> render (default_sim 0 0)
       = [ClearRect (Fin 0) (Fin 0) (Fin 0) (Fin 0), SetGlobalAlpha (Fin 1)]"
proof -
  have size: "width (default_sim 0 0) = Fin 0" "height (default_sim 0 0) = Fin 0"
    by (simp_all add: default_sim_def)
  have "(default_sim 0 0)\<lparr>blades := []\<rparr> = default_sim 0 0"
    by (simp add: default_sim_def)
  then show ?thesis
    using zero_size_container_has_no_blades [OF size, where rnd = half_source
        and k = 0 and now = "Fin 0" and rnd' = half_source and k' = 0 and deltaTime = "Fin 16"]
    by simp
qed


section \<open>The gust: distance, falloff and envelope\<close>

lemma fl_nonneg_cases:
  assumes "0 \<le> x"
  shows "fl x = PInf \<or> (\<exists>y. fl x = Fin y \<and> 0 \<le> y \<and> is_double y)"
proof -
  have "0 \<le> nearest x" using assms by (rule nearest_nonneg)
  then show ?thesis by (auto simp: fl_def is_double_def)
qed

lemma square_cases:
  assumes "a \<noteq> NaN"
  shows "a * a = PInf \<or> (\<exists>p. a * a = Fin p \<and> 0 \<le> p)"
proof (cases a)
  case (Fin r)
  then show ?thesis using fl_nonneg_cases [of "r * r"] by auto
qed (use assms in simp_all)

lemma dist_cases:
  assumes "a \<noteq> NaN" "b \<noteq> NaN"
  shows "Math_sqrt (a * a + b * b) = PInf
       \<or> (\<exists>d. Math_sqrt (a * a + b * b) = Fin d \<and> 0 \<le> d)"
proof -
  have "a * a + b * b = PInf \<or> (\<exists>s. a * a + b * b = Fin s \<and> 0 \<le> s)"
    using square_cases [OF assms(1)] square_cases [OF assms(2)]
  proof (elim disjE exE conjE)
    fix p q
    assume "a * a = Fin p" "0 \<le> p" "b * b = Fin q" "0 \<le> q"
    then show ?thesis using fl_nonneg_cases [of "p + q"] by auto
  qed auto
  then show ?thesis
  proof (elim disjE exE conjE)
    fix s
    assume "a * a + b * b = Fin s" "0 \<le> s"
    then show ?thesis using fl_nonneg_cases [of "sqrt s"] by auto
  qed simp
qed

lemma clamp_saturated:
  assumes "den = Fin q" "0 < q" "Fin q \<le> num"
  shows "Math_max (Fin 0) (Math_min (Fin 1) (num / den)) = Fin 1"
proof (cases num)
  case (Fin n)
  then have "1 \<le> n / q" using assms(2,3) by simp
  then have "Fin 1 \<le> fl (n / q)" by (rule fl_ge) simp
  then show ?thesis
    using assms(1,2) Fin by (cases "fl (n / q)") auto
qed (use assms in simp_all)

lemma is_double_three_quarters [simp]: "is_double (3 / 4)"
  using is_double_grid [of 3 "- 2"] by simp

lemma is_double_eighth [simp]: "is_double (1 / 8)"
  using is_double_grid [of 1 "- 3"] by simp

lemma literal_07: "\<exists>c. lit 0.7 = Fin c \<and> is_double c \<and> 1 / 2 \<le> c \<and> c \<le> 3 / 4"
proof -
  have "(1 / 2 :: real) \<le> 0.7" "(0.7 :: real) \<le> 3 / 4" by simp_all
  from lit_in [OF this] show ?thesis by auto
qed

lemma literal_02: "\<exists>c. lit 0.2 = Fin c \<and> is_double c \<and> 1 / 8 \<le> c \<and> c \<le> 1 / 4"
proof -
  have "(1 / 8 :: real) \<le> 0.2" "(0.2 :: real) \<le> 1 / 4" by simp_all
  from lit_in [OF this] show ?thesis by auto
qed

lemma fall_late:
  assumes "Fin 1 \<le> t"
  shows "smoothstep (lit 0.7) (Fin 1) t = Fin 1"
proof -
  from literal_07 obtain c where c: "lit 0.7 = Fin c" "1 / 2 \<le> c" "c \<le> 3 / 4" by auto
  have "1 / 4 \<le> 1 - c" "1 - c \<le> 1 / 2" using c by simp_all
  from fl_in [OF this] obtain q where q: "fl (1 - c) = Fin q" "1 / 4 \<le> q" by auto
  have den: "Fin 1 - lit 0.7 = Fin q" by (simp only: c minus_Fin q)
  have num: "Fin q \<le> t - lit 0.7"
  proof (cases t)
    case (Fin r)
    then have "1 - c \<le> r - c" using assms by simp
    then have "fl (1 - c) \<le> fl (r - c)" by (rule fl_mono)
    then show ?thesis by (simp only: Fin c minus_Fin q)
  next
    case PInf
    then show ?thesis by (simp add: c minus_number_def)
  qed (use assms in simp_all)
  have "Math_max (Fin 0) (Math_min (Fin 1) ((t - lit 0.7) / (Fin 1 - lit 0.7))) = Fin 1"
    using den _ num by (rule clamp_saturated) (use q in simp)
  then show ?thesis by (rule smoothstep_at_one)
qed

lemma rise_late:
  assumes "Fin 1 \<le> t"
  shows "smoothstep (Fin 0) (lit 0.2) t = Fin 1"
proof -
  from literal_02 obtain c where c: "lit 0.2 = Fin c" "is_double c" "1 / 8 \<le> c" "c \<le> 1 / 4"
    by auto
  have den: "lit 0.2 - Fin 0 = Fin c" by (simp only: c minus_Fin) (use c(2) in simp)
  have num: "Fin c \<le> t - Fin 0"
  proof (cases t)
    case (Fin r)
    then have "c \<le> r - 0" using assms c(4) by simp
    then have "fl c \<le> fl (r - 0)" by (rule fl_mono)
    then show ?thesis by (simp only: Fin minus_Fin) (use c(2) in simp)
  next
    case PInf
    then show ?thesis by (simp add: minus_number_def)
  qed (use assms in simp_all)
  have "Math_max (Fin 0) (Math_min (Fin 1) ((t - Fin 0) / (lit 0.2 - Fin 0))) = Fin 1"
    using den _ num by (rule clamp_saturated) (use c in simp)
  then show ?thesis by (rule smoothstep_at_one)
qed

lemma falloff_unit:
  assumes "0 \<le> d" "d \<le> R" "0 < R"
  shows "unit_number (Fin 1 - Fin d / Fin R)"
proof -
  have "0 \<le> d / R" "d / R \<le> 1" using assms by simp_all
  then have "unit_number (fl (d / R))" by (rule unit_fl)
  then have "unit_number (Fin 1 - fl (d / R))" by (rule unit_complement)
  then show ?thesis using assms(3) by simp
qed

lemma Gust_new_fields [simp]:
  "x_gust (Gust_new x y cfg now r) = x" "y_gust (Gust_new x y cfg now r) = y"
  "config_gust (Gust_new x y cfg now r) = cfg" "birthTime (Gust_new x y cfg now r) = now"
  "duration (Gust_new x y cfg now r) = gustDuration cfg"
  "dirX (Gust_new x y cfg now r) = Math_cos (Fin r * Math_PI * Fin 2)"
  "dirY (Gust_new x y cfg now r) = Math_sin (Fin r * Math_PI * Fin 2)"
  by (simp_all add: Gust_new_def Let_def)

lemma zero_angle [simp]:
  "Math_cos (Fin 0 * Math_PI * Fin 2) = Fin 1" "Math_sin (Fin 0 * Math_PI * Fin 2) = Fin 0"
proof -
  from Math_PI_double obtain p where p: "Math_PI = Fin p" by auto
  show "Math_cos (Fin 0 * Math_PI * Fin 2) = Fin 1" "Math_sin (Fin 0 * Math_PI * Fin 2) = Fin 0"
    by (simp_all add: p)
qed

lemma literal_unit:
  assumes "0 \<le> x" "x \<le> 1"
  shows "\<exists>c. lit x = Fin c \<and> is_double c \<and> 0 \<le> c \<and> c \<le> 1"
  using lit_in [OF assms] by auto

lemma clamp_below:
  assumes "a \<le> Fin 0"
  shows "Math_max (Fin 0) (Math_min (Fin 1) a) = Fin 0"
  using assms by (cases a) auto

lemma rise_early:
  assumes "t \<le> Fin 0"
  shows "smoothstep (Fin 0) (lit 0.2) t = Fin 0"
proof -
  from literal_02 obtain c where c: "lit 0.2 = Fin c" "is_double c" "1 / 8 \<le> c" by auto
  have den: "lit 0.2 - Fin 0 = Fin c" by (simp only: c minus_Fin) (use c(2) in simp)
  have "(t - Fin 0) / Fin c \<le> Fin 0"
  proof (cases t)
    case (Fin r)
    then have r: "r \<le> 0" using assms by simp
    then have n: "fl (r - 0) \<le> Fin 0" by (intro fl_le) simp_all
    show ?thesis
    proof (cases "fl (r - 0)")
      case (Fin n)
      then have "n / c \<le> 0" using n c(3) by (simp add: divide_le_0_iff)
      then have "fl (n / c) \<le> Fin 0" by (intro fl_le) simp_all
      then show ?thesis using \<open>t = Fin r\<close> Fin c(3) by simp
    next
      case NInf
      then show ?thesis using \<open>t = Fin r\<close> c(3) by simp
    qed (use n in simp_all)
  next
    case NInf
    then show ?thesis using c(3) by (simp add: minus_number_def)
  qed (use assms in simp_all)
  then have "Math_max (Fin 0) (Math_min (Fin 1) ((t - Fin 0) / (lit 0.2 - Fin 0))) = Fin 0"
    unfolding den by (rule clamp_below)
  then show ?thesis by (rule smoothstep_at_zero)
qed

lemma fall_early:
  assumes "t \<le> lit 0.7"
  shows "smoothstep (lit 0.7) (Fin 1) t = Fin 0"
proof -
  from literal_07 obtain c where c: "lit 0.7 = Fin c" "1 / 2 \<le> c" "c \<le> 3 / 4" by auto
  have "1 / 4 \<le> 1 - c" "1 - c \<le> 1 / 2" using c by simp_all
  from fl_in [OF this] obtain q where q: "fl (1 - c) = Fin q" "1 / 4 \<le> q" by auto
  have den: "Fin 1 - Fin c = Fin q" by (simp only: minus_Fin q)
  have "(t - Fin c) / Fin q \<le> Fin 0"
  proof (cases t)
    case (Fin r)
    then have r: "r - c \<le> 0" using assms c by simp
    then have n: "fl (r - c) \<le> Fin 0" by (intro fl_le) simp_all
    show ?thesis
    proof (cases "fl (r - c)")
      case (Fin n)
      then have "n / q \<le> 0" using n q(2) by (simp add: divide_le_0_iff)
      then have "fl (n / q) \<le> Fin 0" by (intro fl_le) simp_all
      then show ?thesis using \<open>t = Fin r\<close> Fin q(2) by simp
    next
      case NInf
      then show ?thesis using \<open>t = Fin r\<close> q(2) by simp
    qed (use n in simp_all)
  next
    case NInf
    then show ?thesis using q(2) by (simp add: minus_number_def)
  qed (use assms c in simp_all)
  then have "Math_max (Fin 0) (Math_min (Fin 1) ((t - Fin c) / (Fin 1 - Fin c))) = Fin 0"
    unfolding den by (rule clamp_below)
  then have "Math_max (Fin 0) (Math_min (Fin 1) ((t - lit 0.7) / (Fin 1 - lit 0.7))) = Fin 0"
    by (simp only: c)
  then show ?thesis by (rule smoothstep_at_zero)
qed

lemma rise_full:
  assumes "lit 0.2 \<le> t"
  shows "smoothstep (Fin 0) (lit 0.2) t = Fin 1"
proof -
  from literal_02 obtain c where c: "lit 0.2 = Fin c" "is_double c" "1 / 8 \<le> c" "c \<le> 1 / 4"
    by auto
  have den: "lit 0.2 - Fin 0 = Fin c" by (simp only: c minus_Fin) (use c(2) in simp)
  have num: "Fin c \<le> t - Fin 0"
  proof (cases t)
    case (Fin r)
    then have "c \<le> r - 0" using assms c(1) by simp
    then have "fl c \<le> fl (r - 0)" by (rule fl_mono)
    then show ?thesis by (simp only: Fin minus_Fin) (use c(2) in simp)
  next
    case PInf
    then show ?thesis by (simp add: minus_number_def)
  qed (use assms c in simp_all)
  have "Math_max (Fin 0) (Math_min (Fin 1) ((t - Fin 0) / (lit 0.2 - Fin 0))) = Fin 1"
    using den _ num by (rule clamp_saturated) (use c in simp)
  then show ?thesis by (rule smoothstep_at_one)
qed

lemma unit_times_one:
  assumes "unit_number a"
  shows "a * Fin 1 = a" "Fin 1 * a = a" "a * Fin 0 = Fin 0" "Fin 0 * a = Fin 0"
  using assms by (auto simp: unit_number_iff)

lemma one_times:
  assumes "is_number a"
  shows "Fin 1 * a = a" "a * Fin 1 = a"
  using assms by (cases a; simp)+

lemma num_total:
  assumes "a \<noteq> NaN" "b \<noteq> NaN"
  shows "a \<le> b \<or> b < (a::number)"
  using assms by (cases a; cases b) auto

lemma num_less_imp_le: "a < b \<Longrightarrow> a \<le> (b::number)"
  by (cases a; cases b) auto

lemma num_less_le_trans: "a < b \<Longrightarrow> b \<le> c \<Longrightarrow> a \<le> (c::number)"
  by (cases a; cases b; cases c) auto

lemma thresholds: "Fin 0 \<le> lit 0.2" "lit 0.2 \<le> lit 0.7" "lit 0.7 \<le> Fin 1"
proof -
  from literal_02 obtain c where c: "lit 0.2 = Fin c" "1 / 8 \<le> c" "c \<le> 1 / 4" by auto
  from literal_07 obtain d where d: "lit 0.7 = Fin d" "1 / 2 \<le> d" "d \<le> 3 / 4" by auto
  show "Fin 0 \<le> lit 0.2" "lit 0.2 \<le> lit 0.7" "lit 0.7 \<le> Fin 1"
    using c d by simp_all
qed

lemma envelope_eq:
  assumes "t \<noteq> NaN"
  shows "smoothstep (Fin 0) (lit 0.2) t * (Fin 1 - smoothstep (lit 0.7) (Fin 1) t)
         = envelope_spec t"
proof -
  have nn: "lit 0.2 \<noteq> NaN" "lit 0.7 \<noteq> NaN" by simp_all
  consider "t \<le> Fin 0" | "Fin 0 < t" "t < lit 0.2" | "lit 0.2 \<le> t" "t \<le> lit 0.7"
    | "lit 0.7 < t" "t < Fin 1" | "Fin 1 \<le> t"
    using num_total [OF assms, of "Fin 0"] num_total [of "lit 0.2" t] num_total [OF assms, of "lit 0.7"]
      num_total [of "Fin 1" t] assms
    by auto
  then show ?thesis
  proof cases
    case 1
    then have "t \<le> lit 0.7"
      using thresholds by (meson num_le_trans)
    then show ?thesis
      using 1 by (simp add: envelope_spec_def rise_early fall_early)
  next
    case 2
    have le: "t \<le> lit 0.7"
      using 2(2) thresholds(2) by (rule num_less_le_trans)
    have "\<not> t \<le> Fin 0" using 2(1) by (cases t) auto
    moreover have "smoothstep (Fin 0) (lit 0.2) t * Fin 1 = smoothstep (Fin 0) (lit 0.2) t"
      using smoothstep_unit [of "Fin 0" "lit 0.2" t] by (auto simp: unit_times_one)
    ultimately show ?thesis
      using 2 by (simp add: envelope_spec_def fall_early [OF le])
  next
    case 3
    have "\<not> t \<le> Fin 0" "\<not> t < lit 0.2"
      using 3(1) thresholds(1) literal_02 by (cases t; auto)+
    then show ?thesis
      using 3 by (simp add: envelope_spec_def rise_full fall_early)
  next
    case 4
    have a: "\<not> t \<le> Fin 0" "\<not> t < lit 0.2" "\<not> t \<le> lit 0.7"
      using 4(1) literal_02 literal_07 by (cases t; auto)+
    have "lit 0.2 \<le> t"
      using 4(1) literal_02 literal_07 by (cases t) auto
    then have "smoothstep (Fin 0) (lit 0.2) t = Fin 1" by (rule rise_full)
    then show ?thesis
      using 4 a by (simp add: envelope_spec_def one_times)
  next
    case 5
    have a: "\<not> t \<le> Fin 0" "\<not> t < lit 0.2" "\<not> t \<le> lit 0.7" "\<not> t < Fin 1"
      using 5 literal_02 literal_07 by (cases t; auto)+
    show ?thesis
      using a by (simp add: envelope_spec_def rise_late [OF 5] fall_late [OF 5])
  qed
qed

lemma life_fraction:
  assumes "D \<noteq> 0"
  shows "(Fin now - Fin b) / Fin D \<noteq> NaN"
  using assms by (cases "fl (now - b)") (simp_all add: signed_inf_def)

lemma getForce_is_force_spec:
  assumes "birthTime g = Fin b" "duration g = Fin D" "D \<noteq> 0"
  shows "getForce g (Fin now) x y = force_spec g (Fin now) x y"
  unfolding getForce_def force_spec_def Let_def gust_dist_def assms(1,2)
  by (simp only: envelope_eq [OF life_fraction [OF assms(3)]])

lemma nearest_err_unit:
  assumes "\<bar>x\<bar> \<le> 1"
  shows "\<bar>nearest x - x\<bar> \<le> 1 / 2 ^ 54"
proof (cases "\<bar>x\<bar> < 1")
  case True
  then have "ulp x \<le> 1 / 2 ^ 53" by (rule ulp_below_one)
  then have "ulp x / 2 \<le> 1 / 2 ^ 54" by simp
  then show ?thesis using nearest_err [of x] by linarith
next
  case False
  then have "x = 1 \<or> x = - 1" using assms by (auto simp: abs_if split: if_splits)
  then have "nearest x = x"
    using nearest_of_int [of 1] nearest_of_int [of "- 1"] by auto
  then show ?thesis by simp
qed

lemma gust_angle:
  assumes "0 \<le> r" "r \<le> 1"
  shows "\<exists>a. Fin r * Math_PI * Fin 2 = Fin a \<and> 0 \<le> a \<and> a \<le> 8"
proof -
  from Math_PI_double obtain p where p: "Math_PI = Fin p" "2 \<le> p" "p \<le> 4" by auto
  have "r * p \<le> 1 * 4" using assms p by (intro mult_mono) simp_all
  then have "0 \<le> r * p" "r * p \<le> 4" using assms p by simp_all
  from fl_in [OF this] obtain q where q: "fl (r * p) = Fin q" "0 \<le> q" "q \<le> 4" by auto
  have "0 \<le> q * 2" "q * 2 \<le> 8" using q by simp_all
  from fl_in [OF this] obtain a where a: "fl (q * 2) = Fin a" "0 \<le> a" "a \<le> 8" by auto
  show ?thesis using a by (simp add: p q)
qed

lemma gust_direction:
  assumes "0 \<le> r" "r \<le> 1"
  shows "\<exists>a cx cy. angle_gust (Gust_new x y cfg now r) = Fin a
           \<and> dirX (Gust_new x y cfg now r) = Fin cx \<and> dirY (Gust_new x y cfg now r) = Fin cy
           \<and> is_double cx \<and> is_double cy \<and> \<bar>cx\<bar> \<le> 1 \<and> \<bar>cy\<bar> \<le> 1
           \<and> \<bar>cx - cos a\<bar> \<le> 1 / 2 ^ 54 \<and> \<bar>cy - sin a\<bar> \<le> 1 / 2 ^ 54"
proof -
  from gust_angle [OF assms] obtain a where a: "Fin r * Math_PI * Fin 2 = Fin a" by auto
  have c: "\<bar>cos a\<bar> \<le> 1" and s: "\<bar>sin a\<bar> \<le> 1" by simp_all
  from fl_bounded [OF c] obtain cx where cx: "fl (cos a) = Fin cx" "\<bar>cx\<bar> \<le> 1" "is_double cx"
    by auto
  from fl_bounded [OF s] obtain cy where cy: "fl (sin a) = Fin cy" "\<bar>cy\<bar> \<le> 1" "is_double cy"
    by auto
  have "cx = nearest (cos a)" "cy = nearest (sin a)"
    using cx(1) cy(1) fl_fin_nearest [OF c] fl_fin_nearest [OF s] by simp_all
  then have "\<bar>cx - cos a\<bar> \<le> 1 / 2 ^ 54" "\<bar>cy - sin a\<bar> \<le> 1 / 2 ^ 54"
    using nearest_err_unit [OF c] nearest_err_unit [OF s] by simp_all
  then show ?thesis
    using cx cy by (simp add: Gust_new_def Let_def a)
qed

lemma gust_dist_origin:
  assumes "x_gust g = Fin gx" "y_gust g = Fin gy"
  shows "gust_dist g (Fin gx) (Fin gy) = Fin 0"
  by (simp add: gust_dist_def assms)

lemma envelope_spec_zero [simp]: "envelope_spec (Fin 0) = Fin 0"
  by (simp add: envelope_spec_def)


lemma force_spec_at_birth:
  assumes "x_gust g = Fin gx" "y_gust g = Fin gy" "birthTime g = Fin b"
    and "duration g = Fin D" "D \<noteq> 0"
    and "gustRadius (config_gust g) = Fin R" "0 < R"
    and "gustStrength (config_gust g) = Fin S" "is_double S"
    and "dirX g = Fin cx" "dirY g = Fin cy"
  shows "force_spec g (Fin b) (Fin gx) (Fin gy) = (Fin 0, Fin 0)"
  unfolding force_spec_def gust_dist_origin [OF assms(1,2)] assms
  using assms(5,7,9) by simp



section \<open>The gust: the shape of its force\<close>

lemma lit_nearest:
  assumes "\<bar>x\<bar> \<le> 2 ^ 53"
  shows "lit x = Fin (nearest x)" "is_double (nearest x)"
proof -
  have d: "is_double (2 ^ 53)" using is_double_of_int [of "2 ^ 53"] by simp
  from fl_bounded [OF assms d] obtain y where y: "fl x = Fin y" "is_double y" by auto
  then show "lit x = Fin (nearest x)" "is_double (nearest x)"
    using fl_fin_nearest [OF assms d] by (simp_all add: lit_def)
qed

lemma gust_at_birth:
  assumes "gustRadius cfg = Fin R" "0 < R" "gustDuration cfg = Fin D" "D \<noteq> 0"
    and "gustStrength cfg = Fin S" "is_double S" and "0 \<le> r" "r \<le> 1"
  shows "getForce (Gust_new (Fin gx) (Fin gy) cfg (Fin b) r) (Fin b) (Fin gx) (Fin gy)
         = (Fin 0, Fin 0)"
proof -
  let ?g = "Gust_new (Fin gx) (Fin gy) cfg (Fin b) r"
  from gust_direction [OF assms(7,8), of "Fin gx" "Fin gy" cfg "Fin b"]
  obtain cx cy where d: "dirX ?g = Fin cx" "dirY ?g = Fin cy" by blast
  have f: "x_gust ?g = Fin gx" "y_gust ?g = Fin gy" "birthTime ?g = Fin b" "duration ?g = Fin D"
    "gustRadius (config_gust ?g) = Fin R" "gustStrength (config_gust ?g) = Fin S"
    by (simp_all add: assms)
  have "getForce ?g (Fin b) (Fin gx) (Fin gy) = force_spec ?g (Fin b) (Fin gx) (Fin gy)"
    using f(3,4) assms(4) by (rule getForce_is_force_spec)
  also have "\<dots> = (Fin 0, Fin 0)"
    using f(1-4) assms(4) f(5) assms(2) f(6) assms(6) d by (rule force_spec_at_birth)
  finally show ?thesis .
qed






section \<open>The wind field: the sum of its sources\<close>

lemma add_gust_vec: "add_gust now x y g w = vec_add w (getForce g now x y)"
  by (simp add: add_gust_def vec_add_def Let_def)

lemma fold_add_gust:
  "fold (add_gust now x y) gs w = foldl vec_add w (map (\<lambda>g. getForce g now x y) gs)"
  by (induction gs arbitrary: w) (simp_all add: add_gust_vec)

lemma getWindForce_is_wind_spec: "getWindForce s now x y = wind_spec s now x y"
  by (simp add: getWindForce_def wind_spec_def gust_sum_def Let_def fold_add_gust ambient_def
      pointer_dist_def pointer_force_def vec_add_def)

lemma expired_gust_no_force:
  assumes "regular_gust g" "\<not> isAlive g (Fin now)"
  shows "getForce g (Fin now) (Fin x) (Fin y) = (Fin 0, Fin 0)"
proof -
  from assms(1) obtain gx gy b cx cy D R S where g: "x_gust g = Fin gx" "y_gust g = Fin gy"
      "birthTime g = Fin b" "dirX g = Fin cx" "dirY g = Fin cy" "duration g = Fin D" "0 < D"
      "gustRadius (config_gust g) = Fin R" "0 < R" "gustStrength (config_gust g) = Fin S"
      "is_double S"
    by (auto simp: regular_gust_def is_fin_iff)
  let ?dist = "Math_sqrt ((Fin x - Fin gx) * (Fin x - Fin gx) + (Fin y - Fin gy) * (Fin y - Fin gy))"
  have late: "Fin 1 \<le> (Fin now - Fin b) / Fin D"
  proof (cases "fl (now - b)")
    case (Fin a)
    then have "1 \<le> a / D" using assms(2) g by (simp add: isAlive_def)
    then have "Fin 1 \<le> fl (a / D)" by (rule fl_ge) simp
    then show ?thesis using Fin g(7) by simp
  next
    case PInf
    then show ?thesis using g(7) by simp
  next
    case NInf
    then show ?thesis using assms(2) g by (simp add: isAlive_def)
  qed simp
  have dist: "?dist = PInf \<or> (\<exists>d. ?dist = Fin d \<and> 0 \<le> d)"
    by (rule dist_cases) simp_all
  show ?thesis
  proof (cases "Fin R < ?dist")
    case True
    then show ?thesis using g by (simp add: getForce_def Let_def)
  next
    case False
    then obtain d where d: "?dist = Fin d" "0 \<le> d" "d \<le> R"
      using dist by auto
    have "unit_number (Fin 1 - Fin d / Fin R)"
      using d(2,3) g(9) by (rule falloff_unit)
    then obtain f where f: "Fin 1 - Fin d / Fin R = Fin f" "0 \<le> f" "f \<le> 1"
      by (auto simp: unit_number_iff)
    have "\<bar>S * f\<bar> \<le> \<bar>S\<bar>"
      unfolding abs_mult using f(2,3) by (simp add: mult_left_le)
    moreover have "is_double \<bar>S\<bar>" using g(11) by (simp add: abs_if)
    ultimately obtain h where h: "fl (S * f) = Fin h"
      using fl_bounded by blast
    have env: "smoothstep (Fin 0) (lit 0.2) ((Fin now - Fin b) / Fin D)
               * (Fin 1 - smoothstep (lit 0.7) (Fin 1) ((Fin now - Fin b) / Fin D)) = Fin 0"
      by (simp only: rise_late [OF late] fall_late [OF late]) simp
    have "getForce g (Fin now) (Fin x) (Fin y)
          = (Fin cx * (Fin S * (Fin 1 - Fin d / Fin R) * Fin 0),
             Fin cy * (Fin S * (Fin 1 - Fin d / Fin R) * Fin 0))"
      unfolding getForce_def Let_def g d env using d(3) by simp
    also have "\<dots> = (Fin 0, Fin 0)"
      by (simp only: f times_number.simps h) simp
    finally show ?thesis .
  qed
qed

lemma vec_add_zero:
  assumes "is_number (fst w)" "is_number (snd w)"
  shows "vec_add w (Fin 0, Fin 0) = w"
  using assms by (simp add: vec_add_def)

lemma live_gusts_sum:
  assumes "list_all regular_gust gs" "is_number (fst w)" "is_number (snd w)"
  shows "foldl vec_add w (map (\<lambda>g. getForce g (Fin now) (Fin x) (Fin y)) gs)
       = foldl vec_add w (map (\<lambda>g. getForce g (Fin now) (Fin x) (Fin y))
                    (filter (\<lambda>g. isAlive g (Fin now)) gs))"
  using assms
proof (induction gs arbitrary: w)
  case Nil
  then show ?case by simp
next
  case (Cons g gs)
  show ?case
  proof (cases "isAlive g (Fin now)")
    case True
    have "is_number (fst (vec_add w (getForce g (Fin now) (Fin x) (Fin y))))"
      "is_number (snd (vec_add w (getForce g (Fin now) (Fin x) (Fin y))))"
      by (simp_all add: vec_add_def)
    then show ?thesis using Cons True by simp
  next
    case False
    then have "getForce g (Fin now) (Fin x) (Fin y) = (Fin 0, Fin 0)"
      using Cons.prems(1) by (intro expired_gust_no_force) simp_all
    then show ?thesis using Cons False by (simp add: vec_add_zero)
  qed
qed

text \<open>
  Claim C4, as the program has it. The composed wind is the ambient vector, plus the
  forces of the gusts of the simulation, added one after the other in the order of the
  list, plus the pointer term when the pointer is over the container and the distance
  \<open>dist\<close> of the query point from it satisfies \<open>0 < dist < mouseRadius\<close>; the sum is not
  normalised. The gusts of the simulation are those that were alive at the last frame;
  when they are regular, an expired one among them adds nothing, so the sum is that of
  the live gusts.
\<close>

theorem wind_is_the_sum_of_its_sources:
  "getWindForce s now x y = wind_spec s now x y
   \<and> (list_all regular_gust (gusts s) \<longrightarrow>
        getWindForce s (Fin t) (Fin px) (Fin py)
        = getWindForce (s\<lparr>gusts := filter (\<lambda>g. isAlive g (Fin t)) (gusts s)\<rparr>)
            (Fin t) (Fin px) (Fin py))"
proof -
  have "gust_sum s (Fin t) (Fin px) (Fin py)
        = gust_sum (s\<lparr>gusts := filter (\<lambda>g. isAlive g (Fin t)) (gusts s)\<rparr>)
            (Fin t) (Fin px) (Fin py)"
    if "list_all regular_gust (gusts s)"
    using live_gusts_sum [OF that, of "ambient s (Fin px) (Fin py)" t px py]
    by (simp add: gust_sum_def ambient_def)
  then have "wind_spec s (Fin t) (Fin px) (Fin py)
        = wind_spec (s\<lparr>gusts := filter (\<lambda>g. isAlive g (Fin t)) (gusts s)\<rparr>)
            (Fin t) (Fin px) (Fin py)"
    if "list_all regular_gust (gusts s)"
    using that by (simp add: wind_spec_def pointer_dist_def pointer_force_def)
  then show ?thesis
    by (simp add: getWindForce_is_wind_spec)
qed

text \<open>
  The theorem on the simulation with the pointer, at time 5000, when its gust of
  duration 3000 has expired.
\<close>

theorem wind_is_the_sum_of_its_sources_witness:
  "list_all regular_gust (gusts pointer_sim)
   \<and> getWindForce pointer_sim (Fin 5000) (Fin 30) (Fin 40)
     = getWindForce (pointer_sim\<lparr>gusts := []\<rparr>) (Fin 5000) (Fin 30) (Fin 40)"
proof -
  have "\<exists>c. lit 0.8 = Fin c \<and> is_double c \<and> 0 \<le> c \<and> c \<le> 1"
    by (rule literal_unit) simp_all
  then have reg: "list_all regular_gust (gusts pointer_sim)"
    by (auto simp: pointer_sim_def regular_gust_def DEFAULTS_def)
  have expired: "filter (\<lambda>g. isAlive g (Fin 5000)) (gusts pointer_sim) = []"
    by (simp add: pointer_sim_def isAlive_def DEFAULTS_def)
  have "list_all regular_gust (gusts pointer_sim) \<longrightarrow>
        getWindForce pointer_sim (Fin 5000) (Fin 30) (Fin 40)
        = getWindForce (pointer_sim\<lparr>gusts := filter (\<lambda>g. isAlive g (Fin 5000)) (gusts pointer_sim)\<rparr>)
            (Fin 5000) (Fin 30) (Fin 40)"
    by (rule conjunct2 [OF wind_is_the_sum_of_its_sources])
  then show ?thesis
    using reg by (simp only: expired)
qed

lemma noise2D_origin: "noise2D (Fin 0) (Fin 0) (Fin 0) = Fin 0"
proof -
  have "(0::real) \<le> 12.9898" "(12.9898::real) \<le> 2 ^ 53" "(0::real) \<le> 78.233"
    "(78.233::real) \<le> 2 ^ 53" "(0::real) \<le> 43758.5453" "(43758.5453::real) \<le> 2 ^ 53"
    by simp_all
  then have "Fin 0 * lit 12.9898 = Fin 0" "Fin 0 * lit 78.233 = Fin 0"
    "Fin 0 * lit 43758.5453 = Fin 0"
    by (simp_all only: lit_times_zero)
  then show ?thesis
    unfolding noise2D_def Let_def by (simp only:) simp
qed

lemma smoothNoise_origin: "smoothNoise (Fin 0) (Fin 0) (lit 0.003) (Fin 0) = Fin 0"
proof -
  have "(0::real) \<le> 0.003" "(0.003::real) \<le> 2 ^ 53" by simp_all
  then have s: "Fin 0 * lit 0.003 = Fin 0" by (simp only: lit_times_zero)
  have u: "Fin 0 * Fin 0 * (Fin 3 - Fin 2 * Fin 0) = Fin 0" by simp
  have n10: "unit_number (noise2D (Fin 1) (Fin 0) (Fin 0))"
    and n01: "unit_number (noise2D (Fin 0) (Fin 1) (Fin 0))"
    and n11: "unit_number (noise2D (Fin 1) (Fin 1) (Fin 0))"
    by (rule noise2D_small; simp)+
  show ?thesis
    unfolding smoothNoise_def Let_def s
    by (simp add: noise2D_origin unit_times_one [OF n10] unit_times_one [OF n01]
        unit_times_one [OF n11] unit_is_number [OF n01])
qed

lemma default_gust_at_birth:
  "getForce (Gust_new (Fin 0) (Fin 0) DEFAULTS (Fin 0) 0) (Fin 0) (Fin 0) (Fin 0) = (Fin 0, Fin 0)"
proof -
  have cfg: "gustRadius DEFAULTS = Fin 200" "gustDuration DEFAULTS = Fin 3000"
    by (simp_all add: DEFAULTS_def)
  have S: "gustStrength DEFAULTS = Fin (nearest 0.8)" "is_double (nearest 0.8)"
    using lit_nearest [of "0.8"] by (simp_all add: DEFAULTS_def)
  show ?thesis
    by (rule gust_at_birth [OF cfg(1) _ cfg(2) _ S]) simp_all
qed

text \<open>
  The claim as stated fails at the pointer's own position: the distance is 0, within
  the radius of 150, and the claim adds the pointer term \<open>(1, 0) * (1 - 0) * 0.5\<close> to
  the ambient vector, whose first component is the double of \<open>0.15\<close>; the program
  requires \<^verbatim>\<open>dist > 0\<close> and adds nothing.
\<close>

theorem pointer_term_counterexample:
  "isMouseOver pointer_sim
   \<and> pointer_dist pointer_sim (Fin 0) (Fin 0) = Fin 0
   \<and> mouseRadius (config pointer_sim) = Fin 150
   \<and> getWindForce pointer_sim (Fin 0) (Fin 0) (Fin 0) = (lit 0.15, Fin 0)
   \<and> wind_claimed pointer_sim (Fin 0) (Fin 0) (Fin 0) = (lit 0.15 + Fin 0.5, Fin 0)
   \<and> lit 0.15 + Fin 0.5 \<noteq> lit 0.15"
proof -
  obtain c where c: "lit 0.15 = Fin c" "is_double c" "0 \<le> c" "c \<le> 1 / 4"
    using lit_in [of 0 "0.15" "1 / 4"] by auto
  have amb: "ambient pointer_sim (Fin 0) (Fin 0) = (Fin c, Fin 0)"
    by (simp add: ambient_def pointer_sim_def DEFAULTS_def smoothNoise_origin c)
  have sum: "gust_sum pointer_sim (Fin 0) (Fin 0) (Fin 0) = (Fin c, Fin 0)"
    unfolding gust_sum_def amb
    by (simp add: pointer_sim_def default_gust_at_birth vec_add_def c(2))
  have dist: "pointer_dist pointer_sim (Fin 0) (Fin 0) = Fin 0"
    by (simp add: pointer_dist_def pointer_sim_def)
  have ptr: "pointer_force pointer_sim (Fin 0) (Fin 0) = (Fin (1 / 2), Fin 0)"
    unfolding pointer_force_def dist by (simp add: pointer_sim_def DEFAULTS_def)
  have code: "getWindForce pointer_sim (Fin 0) (Fin 0) (Fin 0) = (Fin c, Fin 0)"
    unfolding getWindForce_is_wind_spec wind_spec_def dist sum by simp
  have claimed: "wind_claimed pointer_sim (Fin 0) (Fin 0) (Fin 0) = (Fin c + Fin (1 / 2), Fin 0)"
    unfolding wind_claimed_def dist sum ptr
    by (simp add: pointer_sim_def DEFAULTS_def vec_add_def)
  have "Fin (1 / 2) \<le> fl (c + 1 / 2)"
    using c(3) by (intro fl_ge) simp_all
  then have "fl (c + 1 / 2) \<noteq> Fin c"
    using c(4) by (cases "fl (c + 1 / 2)") auto
  then show ?thesis
    using code claimed dist by (simp add: c pointer_sim_def DEFAULTS_def)
qed


end
